theory Spec2Isabelle
  imports Main
begin

section \<open>GraphRepo: static dependency and keyword extraction (drillers/deps.py)\<close>

text \<open>
  A shallow embedding of \<^verbatim>\<open>graphrepo/drillers/deps.py\<close>. Python strings are modelled
  as \<^typ>\<open>string\<close> over ASCII text. The collaborators that are not part of the module
  (the language parsers, the hashing helper, the file system, the ignore-pattern
  compiler) are parameters of the functions that call them. \<^verbatim>\<open>pathlib.Path\<close> is
  modelled as the POSIX flavour.
\<close>

subsection \<open>Strings\<close>

text \<open>\<^verbatim>\<open>str.split(sep)\<close> for a one-character separator.\<close>

fun split_on :: "char \<Rightarrow> string \<Rightarrow> string list" where
  "split_on c [] = [[]]"
| "split_on c (x # xs) =
     (if x = c then [] # split_on c xs
      else (case split_on c xs of [] \<Rightarrow> [[x]] | t # ts \<Rightarrow> (x # t) # ts))"

text \<open>\<^verbatim>\<open>sep.join(parts)\<close>.\<close>

fun join_on :: "string \<Rightarrow> string list \<Rightarrow> string" where
  "join_on s [] = []"
| "join_on s [x] = x"
| "join_on s (x # y # ys) = x @ s @ join_on s (y # ys)"

text \<open>\<^verbatim>\<open>s.startswith(p)\<close>.\<close>

definition startswith :: "string \<Rightarrow> string \<Rightarrow> bool" where
  "startswith s p = (take (length p) s = p)"

text \<open>\<^verbatim>\<open>s.strip(chars)\<close>, the characters given as a predicate.\<close>

definition strip_chars :: "(char \<Rightarrow> bool) \<Rightarrow> string \<Rightarrow> string" where
  "strip_chars P s = rev (dropWhile P (rev (dropWhile P s)))"

text \<open>The ASCII characters for which \<^verbatim>\<open>str.isspace\<close> holds.\<close>

definition is_space :: "char \<Rightarrow> bool" where
  "is_space c = (let n = (of_char c :: nat) in (9 \<le> n \<and> n \<le> 13) \<or> (28 \<le> n \<and> n \<le> 32))"

definition backslash :: char where
  "backslash = CHR 0x5C"

definition dquote :: char where
  "dquote = CHR 0x22"

definition squote :: char where
  "squote = CHR 0x27"

definition backtick :: char where
  "backtick = CHR 0x60"

text \<open>\<^verbatim>\<open>s.rfind(c)\<close>: the last index of \<open>c\<close>, or \<open>-1\<close>.\<close>

definition rfind :: "string \<Rightarrow> char \<Rightarrow> int" where
  "rfind s c =
     (if c \<in> set s then int (length s) - 1 - int (length (takeWhile (\<lambda>x. x \<noteq> c) (rev s)))
      else - 1)"

subsection \<open>pathlib.PurePosixPath\<close>

datatype error = ValueError | OSError | KeyError

text \<open>A parsed path: its root (\<open>''''\<close>, \<open>''/''\<close> or \<open>''//''\<close>) and its components.\<close>

datatype path = Path (p_root: string) (p_parts: "string list")

definition splitroot :: "string \<Rightarrow> string \<times> string" where
  "splitroot part =
     (if part \<noteq> [] \<and> hd part = CHR ''/'' then
        (let stripped = dropWhile (\<lambda>c. c = CHR ''/'') part in
         if length part - length stripped = 2 then (''//'', stripped) else (''/'', stripped))
      else ('''', part))"

definition parse_part :: "string \<Rightarrow> path" where
  "parse_part s =
     (case splitroot s of (r, rel) \<Rightarrow>
        Path r (filter (\<lambda>x. x \<noteq> [] \<and> x \<noteq> ''.'') (split_on CHR ''/'' rel)))"

text \<open>
  \<^verbatim>\<open>parse_parts\<close> walks the arguments from the last to the first, skips empty ones and
  stops at the first one that has a root.
\<close>

fun parse_rev :: "string list \<Rightarrow> path" where
  "parse_rev [] = Path [] []"
| "parse_rev (part # rest) =
     (if part = [] then parse_rev rest
      else (let p = parse_part part in
            if p_root p \<noteq> [] then p
            else (let q = parse_rev rest in Path (p_root q) (p_parts q @ p_parts p))))"

text \<open>\<^verbatim>\<open>Path(*args)\<close>.\<close>

definition Path_of :: "string list \<Rightarrow> path" where
  "Path_of args = parse_rev (rev args)"

text \<open>\<^verbatim>\<open>p / key\<close>.\<close>

definition path_div :: "path \<Rightarrow> string \<Rightarrow> path" where
  "path_div p key =
     (let q = Path_of [key] in
      if p_root q \<noteq> [] then q else Path (p_root p) (p_parts p @ p_parts q))"

definition as_posix :: "path \<Rightarrow> string" where
  "as_posix p =
     (if p_root p = [] \<and> p_parts p = [] then ''.'' else p_root p @ join_on ''/'' (p_parts p))"

definition name :: "path \<Rightarrow> string" where
  "name p = (if p_parts p = [] then [] else last (p_parts p))"

definition suffix :: "path \<Rightarrow> string" where
  "suffix p =
     (let n = name p; i = rfind n CHR ''.'' in
      if 0 < i \<and> i < int (length n) - 1 then drop (nat i) n else [])"

definition parent :: "path \<Rightarrow> path" where
  "parent p = Path (p_root p) (butlast (p_parts p))"

definition with_suffix :: "path \<Rightarrow> string \<Rightarrow> error + path" where
  "with_suffix p suf =
     (if CHR ''/'' \<in> set suf then Inl ValueError
      else if (suf \<noteq> [] \<and> \<not> startswith suf ''.'') \<or> suf = ''.'' then Inl ValueError
      else if name p = [] then Inl ValueError
      else (let old_suffix = suffix p;
                n = (if old_suffix = [] then name p @ suf
                     else take (length (name p) - length old_suffix) (name p) @ suf)
            in Inr (Path (p_root p) (butlast (p_parts p) @ [n]))))"

subsection \<open>The import resolver\<close>

record working_file =
  rel_path :: string
  abs_path :: string
  ext :: string

definition EXTS :: "string list" where
  "EXTS = [''.ts'', ''.tsx'', ''.js'', ''.jsx'', ''.mjs'', ''.cjs'', ''.php'']"

definition candidate_paths :: "string \<Rightarrow> string list" where
  "candidate_paths rp =
     (let path_obj = Path_of [rp] in
      if suffix path_obj \<noteq> [] then [as_posix path_obj]
      else map (\<lambda>e. rp @ e) EXTS @
           map (\<lambda>e. as_posix (Path_of [rp, ''index'' @ e])) EXTS)"

text \<open>\<^verbatim>\<open>for cand in candidates: if cand in known_paths: return cand\<close>.\<close>

fun first_known :: "string list \<Rightarrow> string set \<Rightarrow> string option" where
  "first_known [] known = None"
| "first_known (c # cs) known = (if c \<in> known then Some c else first_known cs known)"

definition clean :: "string \<Rightarrow> string" where
  "clean target = strip_chars (\<lambda>c. c = dquote \<or> c = squote) (strip_chars is_space target)"

text \<open>The PHP namespace heuristic applies to these importers and cleaned specifiers.\<close>

definition php_case :: "working_file \<Rightarrow> string \<Rightarrow> bool" where
  "php_case importer cleaned =
     (ext importer = ''.php'' \<and> backslash \<in> set cleaned \<and>
      \<not> (startswith cleaned ''./'' \<or> startswith cleaned ''/''))"

definition php_guess :: "string \<Rightarrow> path" where
  "php_guess cleaned = Path_of [map (\<lambda>c. if c = backslash then CHR ''/'' else c) cleaned]"

definition php_candidates :: "string \<Rightarrow> error + string list" where
  "php_candidates cleaned =
     (case with_suffix (php_guess cleaned) ''.php'' of
        Inl e \<Rightarrow> Inl e
      | Inr c1 \<Rightarrow> Inr [as_posix c1, as_posix (path_div (php_guess cleaned) ''index.php'')])"

definition base_path :: "working_file \<Rightarrow> string \<Rightarrow> string" where
  "base_path importer cleaned =
     (let rel_candidate = (if startswith cleaned ''/'' then drop 1 cleaned else cleaned);
          d = parent (Path_of [rel_path importer]);
          importer_dir = (if as_posix d = ''.'' then Path_of [[]] else d)
      in as_posix (path_div importer_dir rel_candidate))"

definition resolve_general :: "working_file \<Rightarrow> string \<Rightarrow> string set \<Rightarrow> string option" where
  "resolve_general importer cleaned known =
     first_known (candidate_paths (base_path importer cleaned)) known"

definition resolve_target :: "working_file \<Rightarrow> string \<Rightarrow> string set \<Rightarrow> error + string option" where
  "resolve_target importer target known =
     (if target = [] then Inr None
      else if startswith target ''http://'' \<or> startswith target ''https://'' then Inr None
      else (let cleaned = clean target in
        if cleaned = [] then Inr None
        else if php_case importer cleaned then
          (case php_candidates cleaned of
             Inl e \<Rightarrow> Inl e
           | Inr cands \<Rightarrow>
               (case first_known cands known of
                  Some c \<Rightarrow> Inr (Some c)
                | None \<Rightarrow> Inr (resolve_general importer cleaned known)))
        else Inr (resolve_general importer cleaned known)))"

subsection \<open>The keyword extractor\<close>

definition STOPWORDS :: "string list" where
  "STOPWORDS = ['''', ''src'', ''app'', ''apps'', ''lib'', ''dist'', ''build'', ''index'',
     ''test'', ''tests'', ''spec'', ''tmp'', ''public'', ''assets'', ''vendor'', ''data'',
     ''static'']"

definition KEYWORD_LIMIT :: nat where
  "KEYWORD_LIMIT = 20"

definition is_upper :: "char \<Rightarrow> bool" where
  "is_upper c = (let n = (of_char c :: nat) in 65 \<le> n \<and> n \<le> 90)"

definition lower_char :: "char \<Rightarrow> char" where
  "lower_char c = (if is_upper c then char_of ((of_char c :: nat) + 32) else c)"

text \<open>\<^verbatim>\<open>s.lower()\<close> on ASCII text.\<close>

definition lower :: "string \<Rightarrow> string" where
  "lower s = map lower_char s"

text \<open>
  \<^verbatim>\<open>re.split(r"[\\/._-]+", s)\<close>: the pieces between maximal runs of separator
  characters, with an empty piece where the string starts or ends with a run.
\<close>

definition is_path_sep :: "char \<Rightarrow> bool" where
  "is_path_sep c =
     (c = backslash \<or> c = CHR ''/'' \<or> c = CHR ''.'' \<or> c = CHR ''_'' \<or> c = CHR ''-'')"

fun re_split_go :: "string \<Rightarrow> bool \<Rightarrow> string \<Rightarrow> string list" where
  "re_split_go cur insep [] = [cur]"
| "re_split_go cur insep (c # cs) =
     (if is_path_sep c then
        (if insep then re_split_go cur True cs else cur # re_split_go [] True cs)
      else re_split_go (cur @ [c]) False cs)"

definition re_split :: "string \<Rightarrow> string list" where
  "re_split s = re_split_go [] False s"

definition is_ident_start :: "char \<Rightarrow> bool" where
  "is_ident_start c =
     (let n = (of_char c :: nat) in (65 \<le> n \<and> n \<le> 90) \<or> (97 \<le> n \<and> n \<le> 122) \<or> c = CHR ''_'')"

definition is_ident_char :: "char \<Rightarrow> bool" where
  "is_ident_char c = (is_ident_start c \<or> (let n = (of_char c :: nat) in 48 \<le> n \<and> n \<le> 57))"

text \<open>
  One identifier pattern \<^verbatim>\<open>kw\s+([A-Za-z_][A-Za-z0-9_]*)\<close>, followed by \<^verbatim>\<open>\s*=\<close>
  when \<open>need_eq\<close> holds, matched at the start of \<open>s\<close>: the captured identifier and the
  length of the match. The greedy repetitions never give characters back with success,
  since whitespace, identifier characters and \<open>=\<close> are disjoint.
\<close>

definition match_at :: "string \<Rightarrow> bool \<Rightarrow> string \<Rightarrow> (string \<times> nat) option" where
  "match_at kw need_eq s =
     (if \<not> startswith s kw then None
      else (let r1 = drop (length kw) s;
                ws = takeWhile is_space r1;
                r2 = dropWhile is_space r1 in
        if ws = [] then None
        else (case r2 of
            [] \<Rightarrow> None
          | c # r2' \<Rightarrow>
              if \<not> is_ident_start c then None
              else (let ident = c # takeWhile is_ident_char r2';
                        r3 = dropWhile is_ident_char r2';
                        n3 = length kw + length ws + length ident in
                if \<not> need_eq then Some (ident, n3)
                else (let ws2 = takeWhile is_space r3 in
                  (case dropWhile is_space r3 of
                     [] \<Rightarrow> None
                   | e # _ \<Rightarrow> if e = CHR ''='' then Some (ident, n3 + length ws2 + 1)
                              else None))))))"

text \<open>
  \<^verbatim>\<open>re.findall\<close> for such a pattern: the scan moves one character after a failed
  attempt and to the end of the match after a successful one (\<open>skip\<close> counts the
  characters of the last match still to be passed over).
\<close>

fun findall_go :: "string \<Rightarrow> bool \<Rightarrow> nat \<Rightarrow> string \<Rightarrow> string list" where
  "findall_go kw need_eq skip [] = []"
| "findall_go kw need_eq skip (c # cs) =
     (if 0 < skip then findall_go kw need_eq (skip - 1) cs
      else (case match_at kw need_eq (c # cs) of
              None \<Rightarrow> findall_go kw need_eq 0 cs
            | Some (ident, n) \<Rightarrow> ident # findall_go kw need_eq (n - 1) cs))"

definition findall :: "string \<times> bool \<Rightarrow> string \<Rightarrow> string list" where
  "findall pat s = findall_go (fst pat) (snd pat) 0 s"

definition ident_patterns :: "(string \<times> bool) list" where
  "ident_patterns = [(''class'', False), (''function'', False), (''def'', False), (''const'', True)]"

text \<open>The body shared by the two loops of \<^verbatim>\<open>_extract_keywords\<close>.\<close>

definition add_keyword :: "string list \<Rightarrow> string \<Rightarrow> string list" where
  "add_keyword keywords tok =
     (let l = lower tok in
      if l \<in> set STOPWORDS \<or> l = [] then keywords
      else if l \<notin> set keywords then keywords @ [l] else keywords)"

definition path_tokens :: "working_file \<Rightarrow> string list" where
  "path_tokens file = re_split (rel_path file)"

text \<open>\<open>rd_text\<close> gives the decoded text of a file, or \<open>None\<close> where reading raises.\<close>

definition snippet_of :: "(string \<Rightarrow> string option) \<Rightarrow> working_file \<Rightarrow> string" where
  "snippet_of rd_text file =
     take 5000 (case rd_text (abs_path file) of None \<Rightarrow> [] | Some t \<Rightarrow> t)"

definition ident_tokens :: "(string \<Rightarrow> string option) \<Rightarrow> working_file \<Rightarrow> string list" where
  "ident_tokens rd_text file =
     concat (map (\<lambda>pat. findall pat (snippet_of rd_text file)) ident_patterns)"

definition extract_keywords :: "(string \<Rightarrow> string option) \<Rightarrow> working_file \<Rightarrow> string list" where
  "extract_keywords rd_text file =
     (let keywords = foldl add_keyword [] (path_tokens file);
          keywords = foldl (\<lambda>kws pat. foldl add_keyword kws (findall pat (snippet_of rd_text file)))
                       keywords ident_patterns
      in take KEYWORD_LIMIT keywords)"

subsection \<open>The import extractor\<close>

text \<open>A syntax-tree node of the parser: its type, its byte range and its children.\<close>

datatype node = Node (ntype: string) (start_byte: nat) (end_byte: nat) (children: "node list")

definition node_text :: "node \<Rightarrow> string \<Rightarrow> string" where
  "node_text n code = take (end_byte n - start_byte n) (drop (start_byte n) code)"

definition strip_quotes :: "string \<Rightarrow> string" where
  "strip_quotes s = strip_chars (\<lambda>c. c = dquote \<or> c = squote \<or> c = backtick) s"

definition string_children :: "string \<Rightarrow> node \<Rightarrow> string list" where
  "string_children code n =
     map (\<lambda>c. strip_quotes (node_text c code)) (filter (\<lambda>c. ntype c = ''string'') (children n))"

definition js_node_imports :: "string \<Rightarrow> node \<Rightarrow> string list" where
  "js_node_imports code n =
     (if ntype n = ''import_statement'' then string_children code n
      else if ntype n = ''call_expression'' then
        (if children n \<noteq> [] \<and> ntype (hd (children n)) = ''identifier'' \<and>
            node_text (hd (children n)) code = ''require''
         then concat (map (string_children code)
                (filter (\<lambda>c. ntype c = ''arguments'') (children n)))
         else [])
      else [])"

fun extract_js_like_imports :: "string \<Rightarrow> node \<Rightarrow> string list" where
  "extract_js_like_imports code (Node t s e cs) =
     js_node_imports code (Node t s e cs) @ concat (map (extract_js_like_imports code) cs)"

definition php_node_imports :: "string \<Rightarrow> node \<Rightarrow> string list" where
  "php_node_imports code n =
     (if ntype n \<in> set [''require_expression'', ''require_once_expression'',
                          ''include_expression'', ''include_once_expression'']
      then string_children code n
      else if ntype n = ''namespace_use_declaration'' then
        map (\<lambda>c. node_text c code) (filter (\<lambda>c. ntype c = ''namespace_use_clause'') (children n))
      else [])"

fun extract_php_imports :: "string \<Rightarrow> node \<Rightarrow> string list" where
  "extract_php_imports code (Node t s e cs) =
     php_node_imports code (Node t s e cs) @ concat (map (extract_php_imports code) cs)"

text \<open>
  The collaborators of a run: \<open>filename_to_lang\<close> and \<open>get_parser\<close> of the grammar
  library (\<open>None\<close> where \<^verbatim>\<open>get_language\<close> or \<^verbatim>\<open>get_parser\<close> raises; a parser maps the
  bytes of a file to the root of its tree), the file system (\<open>None\<close> where reading
  raises) and the hashing helper.
\<close>

record path_hashes =
  merge_hash :: string
  hash :: string

record env =
  filename_to_lang :: "string \<Rightarrow> string option"
  get_parser :: "string \<Rightarrow> (string \<Rightarrow> node) option"
  read_bytes :: "string \<Rightarrow> string option"
  read_text :: "string \<Rightarrow> string option"
  get_path_hashes :: "string \<Rightarrow> path_hashes"

definition extract_imports :: "env \<Rightarrow> working_file \<Rightarrow> error + string list" where
  "extract_imports ev file =
     (case filename_to_lang ev (rel_path file) of
        None \<Rightarrow> Inr []
      | Some lang \<Rightarrow>
          if lang = [] then Inr []
          else (case get_parser ev lang of
              None \<Rightarrow> Inr []
            | Some parser \<Rightarrow>
                (case read_bytes ev (abs_path file) of
                   None \<Rightarrow> Inl OSError
                 | Some code_bytes \<Rightarrow>
                     (let root = parser code_bytes in
                      if lang = ''javascript'' \<or> lang = ''typescript''
                      then Inr (extract_js_like_imports code_bytes root)
                      else if lang = ''php'' then Inr (extract_php_imports code_bytes root)
                      else Inr []))))"

subsection \<open>The run: edge and keyword materialization\<close>

text \<open>The rows handed to the two batch operations.\<close>

record import_edge =
  src_merge_hash :: string
  src_hash :: string
  dst_merge_hash :: string
  dst_hash :: string

record keyword_row =
  row_merge_hash :: string
  row_hash :: string
  row_keywords :: "string list"

text \<open>
  \<^verbatim>\<open>_load_known_files\<close>: the rows of the store's answer (a missing value is \<open>None\<close>)
  become the dictionary from \<open>merge_hash\<close> to \<open>hash\<close>, rows without a \<open>merge_hash\<close>
  left out. The dictionary is an association list; only its keys are read.
\<close>

definition load_known_files :: "(string option \<times> string option) list \<Rightarrow> (string \<times> string option) list" where
  "load_known_files rows =
     concat (map (\<lambda>row. case fst row of
                           None \<Rightarrow> []
                         | Some m \<Rightarrow> if m = [] then [] else [(m, snd row)]) rows)"

definition in_known :: "string \<Rightarrow> (string \<times> string option) list \<Rightarrow> bool" where
  "in_known m known_files = (m \<in> fst ` set known_files)"

text \<open>The variables the loops of \<^verbatim>\<open>run\<close> update.\<close>

record run_state =
  file_hashes :: "string \<rightharpoonup> path_hashes"
  imports_seen :: "(string \<times> string) set"
  relations :: "import_edge list"
  keywords_rows :: "keyword_row list"

text \<open>The body of the loop over the targets of one file (lines 325 to 347).\<close>

definition import_step ::
  "env \<Rightarrow> (string \<times> string option) list \<Rightarrow> string set \<Rightarrow> working_file \<Rightarrow> path_hashes \<Rightarrow>
     run_state \<Rightarrow> string \<Rightarrow> error + run_state" where
  "import_step ev known_files working_paths wfile hashes st target =
     (case resolve_target wfile target working_paths of
        Inl e \<Rightarrow> Inl e
      | Inr None \<Rightarrow> Inr st
      | Inr (Some resolved) \<Rightarrow>
          if resolved = [] then Inr st
          else (let tgt_hashes = (case file_hashes st resolved of
                                    Some h \<Rightarrow> h
                                  | None \<Rightarrow> get_path_hashes ev resolved);
                    st1 = (case file_hashes st resolved of
                             Some h \<Rightarrow> st
                           | None \<Rightarrow> st\<lparr>file_hashes := (file_hashes st)(resolved \<mapsto> tgt_hashes)\<rparr>);
                    tgt_merge_hash = merge_hash tgt_hashes in
            if \<not> in_known tgt_merge_hash known_files then Inr st1
            else (let edge_key = (merge_hash hashes, tgt_merge_hash) in
              if edge_key \<in> imports_seen st1 then Inr st1
              else Inr (st1\<lparr>imports_seen := insert edge_key (imports_seen st1),
                             relations := relations st1 @
                               [\<lparr>src_merge_hash = merge_hash hashes, src_hash = hash hashes,
                                 dst_merge_hash = tgt_merge_hash, dst_hash = hash tgt_hashes\<rparr>]\<rparr>))))"

fun import_loop ::
  "env \<Rightarrow> (string \<times> string option) list \<Rightarrow> string set \<Rightarrow> working_file \<Rightarrow> path_hashes \<Rightarrow>
     run_state \<Rightarrow> string list \<Rightarrow> error + run_state" where
  "import_loop ev known_files working_paths wfile hashes st [] = Inr st"
| "import_loop ev known_files working_paths wfile hashes st (target # targets) =
     (case import_step ev known_files working_paths wfile hashes st target of
        Inl e \<Rightarrow> Inl e
      | Inr st' \<Rightarrow> import_loop ev known_files working_paths wfile hashes st' targets)"

text \<open>The body of the loop over the working files (lines 311 to 347).\<close>

definition file_step ::
  "env \<Rightarrow> (string \<times> string option) list \<Rightarrow> string set \<Rightarrow> run_state \<Rightarrow> working_file \<Rightarrow>
     error + run_state" where
  "file_step ev known_files working_paths st wfile =
     (case file_hashes st (rel_path wfile) of
        None \<Rightarrow> Inl KeyError
      | Some hashes \<Rightarrow>
          if \<not> in_known (merge_hash hashes) known_files then Inr st
          else (let kw = extract_keywords (read_text ev) wfile;
                    st1 = st\<lparr>keywords_rows := keywords_rows st @
                            [\<lparr>row_merge_hash = merge_hash hashes, row_hash = hash hashes,
                              row_keywords = kw\<rparr>]\<rparr> in
            case extract_imports ev wfile of
              Inl e \<Rightarrow> Inl e
            | Inr targets \<Rightarrow>
                import_loop ev known_files working_paths wfile hashes st1 targets))"

fun file_loop ::
  "env \<Rightarrow> (string \<times> string option) list \<Rightarrow> string set \<Rightarrow> run_state \<Rightarrow> working_file list \<Rightarrow>
     error + run_state" where
  "file_loop ev known_files working_paths st [] = Inr st"
| "file_loop ev known_files working_paths st (wfile # wfs) =
     (case file_step ev known_files working_paths st wfile of
        Inl e \<Rightarrow> Inl e
      | Inr st' \<Rightarrow> file_loop ev known_files working_paths st' wfs)"

text \<open>Lines 301 to 347: the state before the loops, and the loops.\<close>

definition initial_state :: "env \<Rightarrow> working_file list \<Rightarrow> run_state" where
  "initial_state ev working_files =
     \<lparr>file_hashes = foldl (\<lambda>fh wfile. fh(rel_path wfile \<mapsto> get_path_hashes ev (rel_path wfile)))
                       Map.empty working_files,
      imports_seen = {}, relations = [], keywords_rows = []\<rparr>"

definition materialize ::
  "env \<Rightarrow> (string \<times> string option) list \<Rightarrow> working_file list \<Rightarrow> error + run_state" where
  "materialize ev known_files working_files =
     file_loop ev known_files (rel_path ` set working_files)
       (initial_state ev working_files) working_files"

text \<open>
  What a run returns and does: the two counts of the summary, and the argument of each
  call of the batch operations \<^verbatim>\<open>set_file_keywords\<close> and \<^verbatim>\<open>index_imports\<close>.
\<close>

record run_result =
  imports_count :: nat
  keyworded_files :: nat
  set_file_keywords_calls :: "keyword_row list list"
  index_imports_calls :: "import_edge list list"

definition zero_result :: run_result where
  "zero_result = \<lparr>imports_count = 0, keyworded_files = 0,
                   set_file_keywords_calls = [], index_imports_calls = []\<rparr>"

text \<open>
  \<^verbatim>\<open>run\<close>, given the rows of the store and the files the scanner yields.
\<close>

definition run ::
  "env \<Rightarrow> (string option \<times> string option) list \<Rightarrow> working_file list \<Rightarrow> error + run_result" where
  "run ev rows working_files =
     (let known_files = load_known_files rows in
      if known_files = [] then Inr zero_result
      else if working_files = [] then Inr zero_result
      else (case materialize ev known_files working_files of
              Inl e \<Rightarrow> Inl e
            | Inr st \<Rightarrow>
                Inr \<lparr>imports_count = length (relations st),
                     keyworded_files = length (keywords_rows st),
                     set_file_keywords_calls =
                       (if keywords_rows st \<noteq> [] then [keywords_rows st] else []),
                     index_imports_calls =
                       (if relations st \<noteq> [] then [relations st] else [])\<rparr>))"

subsection \<open>The ignore rules and the tree scanner\<close>

definition DEFAULT_IGNORES :: "string list" where
  "DEFAULT_IGNORES = [''.git'', ''.hg'', ''.svn'', ''.venv'', ''node_modules'', ''dist'',
     ''build'', ''__pycache__'', ''.cache'']"

definition SUPPORTED_IMPORT_EXTS :: "string list" where
  "SUPPORTED_IMPORT_EXTS = [''.js'', ''.jsx'', ''.ts'', ''.tsx'', ''.mjs'', ''.cjs'', ''.php'']"

text \<open>
  A compiled ignore pattern of the pattern library: whether it includes (\<open>Some True\<close>),
  negates (\<open>Some False\<close>) or is a blank or comment line (\<open>None\<close>), and the paths its
  regular expression matches. The compiler of a line is a parameter.
\<close>

datatype pattern = Pattern (p_include: "bool option") (p_match: "string \<Rightarrow> bool")

text \<open>
  \<^verbatim>\<open>_build_ignore_spec\<close>. The lines of the repository's ignore file and of the extra
  ignore file are \<open>None\<close> where the file is absent or not given.
\<close>

definition build_ignore_spec ::
  "(string \<Rightarrow> pattern) \<Rightarrow> string list option \<Rightarrow> string list option \<Rightarrow> pattern list" where
  "build_ignore_spec compile gitignore ignore_file =
     (let default_lines = map (\<lambda>p. p @ ''/'') DEFAULT_IGNORES @ DEFAULT_IGNORES;
          lines = default_lines
                  @ (case gitignore of None \<Rightarrow> [] | Some ls \<Rightarrow> ls)
                  @ (case ignore_file of None \<Rightarrow> [] | Some ls \<Rightarrow> ls)
      in map compile lines)"

text \<open>
  \<^verbatim>\<open>PathSpec.match_file\<close>: the last pattern that matches the path decides.
\<close>

definition match_step :: "string \<Rightarrow> bool \<Rightarrow> pattern \<Rightarrow> bool" where
  "match_step file matched p =
     (case p_include p of
        None \<Rightarrow> matched
      | Some inc \<Rightarrow> if p_match p file then inc else matched)"

definition match_file :: "pattern list \<Rightarrow> string \<Rightarrow> bool" where
  "match_file patterns file = foldl (match_step file) False patterns"

definition should_ignore :: "pattern list \<Rightarrow> string \<Rightarrow> bool" where
  "should_ignore ignore_spec rp = match_file ignore_spec rp"

text \<open>A directory of the working tree, as \<^verbatim>\<open>os.walk\<close> lists it.\<close>

datatype dir = Dir (dirnames: "(string \<times> dir) list") (filenames: "string list")

text \<open>The files one directory yields (lines 111 to 119).\<close>

definition files_here :: "pattern list \<Rightarrow> string \<Rightarrow> string \<Rightarrow> string list \<Rightarrow> working_file list" where
  "files_here ignore_spec dirpath rel_dir fnames =
     concat (map (\<lambda>filename.
       (let rp = as_posix (Path_of [rel_dir, filename]) in
        if should_ignore ignore_spec rp then []
        else (let e = suffix (Path_of [filename]) in
          if lower e \<notin> set SUPPORTED_IMPORT_EXTS then []
          else [\<lparr>rel_path = rp,
                 abs_path = as_posix (path_div (Path_of [dirpath]) filename),
                 ext = lower e\<rparr>]))) fnames)"

text \<open>\<^verbatim>\<open>os.path.join\<close> of a directory path and a name.\<close>

definition os_join :: "string \<Rightarrow> string \<Rightarrow> string" where
  "os_join d n = (if d = [] then n else d @ ''/'' @ n)"

text \<open>
  \<^verbatim>\<open>_iter_working_files\<close>: the walk from the top down, the ignored directories
  pruned before the descent. \<open>rel_dir\<close> is the directory's path relative to the root,
  empty at the root.
\<close>

fun walk :: "pattern list \<Rightarrow> string \<Rightarrow> string \<Rightarrow> dir \<Rightarrow> working_file list"
  and walk_dirs :: "pattern list \<Rightarrow> string \<Rightarrow> string \<Rightarrow> (string \<times> dir) list \<Rightarrow> working_file list"
where
  "walk ignore_spec dirpath rel_dir (Dir subs fnames) =
     files_here ignore_spec dirpath rel_dir fnames @ walk_dirs ignore_spec dirpath rel_dir subs"
| "walk_dirs ignore_spec dirpath rel_dir [] = []"
| "walk_dirs ignore_spec dirpath rel_dir ((d, t) # rest) =
     (if should_ignore ignore_spec (as_posix (Path_of [rel_dir, d])) then []
      else walk ignore_spec (dirpath @ ''/'' @ d) (os_join rel_dir d) t)
     @ walk_dirs ignore_spec dirpath rel_dir rest"

definition iter_working_files :: "pattern list \<Rightarrow> string \<Rightarrow> dir \<Rightarrow> working_file list" where
  "iter_working_files ignore_spec repo_root tree = walk ignore_spec repo_root [] tree"

text \<open>
  The pattern library on a line that is a literal name without a slash or a wildcard,
  with an optional leading \<open>!\<close> and an optional trailing \<open>/\<close>: the name matches a path
  with a component equal to it, the name with a trailing slash a path with such a
  component before the last one. This compiler is used for concrete evaluations.
\<close>

definition gitwildmatch_name :: "string \<Rightarrow> pattern" where
  "gitwildmatch_name line =
     (if line = [] \<or> hd line = CHR ''#'' then Pattern None (\<lambda>p. False)
      else (let neg = (hd line = CHR ''!'');
                body = (if neg then tl line else line);
                dir_only = (body \<noteq> [] \<and> last body = CHR ''/'');
                nm = (if dir_only then butlast body else body)
            in Pattern (Some (\<not> neg))
                 (\<lambda>p. if dir_only then nm \<in> set (butlast (split_on CHR ''/'' p))
                      else nm \<in> set (split_on CHR ''/'' p))))"

subsection \<open>Notions used to state the properties\<close>

text \<open>The key under which \<^verbatim>\<open>run\<close> records an edge: source first, target second.\<close>

definition edge_key :: "import_edge \<Rightarrow> string \<times> string" where
  "edge_key e = (src_merge_hash e, dst_merge_hash e)"

text \<open>The hashes \<^verbatim>\<open>run\<close> uses for a resolved path: the recorded ones, else fresh ones.\<close>

definition hashes_for :: "env \<Rightarrow> run_state \<Rightarrow> string \<Rightarrow> path_hashes" where
  "hashes_for ev st resolved =
     (case file_hashes st resolved of Some h \<Rightarrow> h | None \<Rightarrow> get_path_hashes ev resolved)"

text \<open>Every edge and every keyword row of a state refers to known identities.\<close>

definition rows_known :: "(string \<times> string option) list \<Rightarrow> run_state \<Rightarrow> bool" where
  "rows_known known st =
     (list_all (\<lambda>e. in_known (src_merge_hash e) known \<and> in_known (dst_merge_hash e) known)
        (relations st) \<and>
      list_all (\<lambda>r. in_known (row_merge_hash r) known) (keywords_rows st))"

text \<open>The keys of the edges a run of the loops materializes, if it returns.\<close>

definition result_keys :: "error + run_state \<Rightarrow> (string \<times> string) list option" where
  "result_keys r = (case r of Inl e \<Rightarrow> None | Inr st \<Rightarrow> Some (map edge_key (relations st)))"

text \<open>A lowered token is kept as a keyword when it is neither a stopword nor empty.\<close>

definition keyword_ok :: "string \<Rightarrow> bool" where
  "keyword_ok l = (l \<notin> set STOPWORDS \<and> l \<noteq> [])"

text \<open>The elements of a list in the order of their first occurrence.\<close>

definition first_occurrences :: "'a list \<Rightarrow> 'a list" where
  "first_occurrences xs = rev (remdups (rev xs))"

definition no_upper :: "string \<Rightarrow> bool" where
  "no_upper s = list_all (\<lambda>c. \<not> is_upper c) s"

text \<open>A string with a \<open>/\<close>-separated segment equal to \<open>..\<close>.\<close>

definition has_dotdot :: "string \<Rightarrow> bool" where
  "has_dotdot s = (''..'' \<in> set (split_on CHR ''/'' s))"

text \<open>A string with a \<open>/\<close>-separated segment that begins with \<open>..\<close>.\<close>

definition dotdot_start :: "string \<Rightarrow> bool" where
  "dotdot_start s = list_ex (\<lambda>c. startswith c ''..'') (split_on CHR ''/'' s)"

text \<open>What parsing guarantees of a path: one of the three roots, components without \<open>/\<close>.\<close>

definition path_ok :: "path \<Rightarrow> bool" where
  "path_ok p = ((p_root p = [] \<or> p_root p = ''/'' \<or> p_root p = ''//'') \<and>
                list_all (\<lambda>x. CHR ''/'' \<notin> set x \<and> x \<noteq> []) (p_parts p))"

subsection \<open>A small repository for concrete evaluations\<close>

text \<open>
  Four TypeScript files at the root: \<open>a.ts\<close> imports \<open>./b\<close> twice, \<open>b.ts\<close> imports
  \<open>./a\<close>, \<open>c.ts\<close> imports \<open>./u\<close>, and \<open>u.ts\<close> imports nothing. The store knows the
  identities of all but \<open>u.ts\<close>.
\<close>

definition quoted :: "string \<Rightarrow> string" where
  "quoted s = [dquote] @ s @ [dquote]"

definition demo_src_a :: string where
  "demo_src_a = ''import '' @ quoted ''./b'' @ ''; import '' @ quoted ''./b''"

definition demo_src_b :: string where
  "demo_src_b = ''import '' @ quoted ''./a''"

definition demo_src_c :: string where
  "demo_src_c = ''import '' @ quoted ''./u''"

definition demo_read :: "string \<Rightarrow> string option" where
  "demo_read p =
     (if p = ''/r/a.ts'' then Some demo_src_a
      else if p = ''/r/b.ts'' then Some demo_src_b
      else if p = ''/r/c.ts'' then Some demo_src_c
      else if p = ''/r/u.ts'' then Some []
      else None)"

definition demo_import :: "nat \<Rightarrow> node" where
  "demo_import start =
     Node ''import_statement'' start (start + 12)
       [Node ''import'' start (start + 6) [], Node ''string'' (start + 7) (start + 12) []]"

definition demo_parser :: "string \<Rightarrow> node" where
  "demo_parser code =
     Node ''program'' 0 (length code)
       (if code = demo_src_a then [demo_import 0, demo_import 14]
        else if code = demo_src_b \<or> code = demo_src_c then [demo_import 0]
        else [])"

definition demo_env :: env where
  "demo_env =
     \<lparr>filename_to_lang = (\<lambda>p. if suffix (Path_of [p]) = ''.ts'' then Some ''typescript''
                              else if suffix (Path_of [p]) = ''.php'' then Some ''php''
                              else None),
      get_parser = (\<lambda>lang. Some demo_parser),
      read_bytes = demo_read,
      read_text = demo_read,
      get_path_hashes = (\<lambda>p. \<lparr>merge_hash = ''M:'' @ p, hash = ''H:'' @ p\<rparr>)\<rparr>"

definition demo_file :: "string \<Rightarrow> working_file" where
  "demo_file n = \<lparr>rel_path = n, abs_path = ''/r/'' @ n, ext = suffix (Path_of [n])\<rparr>"

definition demo_files :: "working_file list" where
  "demo_files = map demo_file [''a.ts'', ''b.ts'', ''c.ts'', ''u.ts'']"

definition demo_rows :: "(string option \<times> string option) list" where
  "demo_rows = [(Some ''M:a.ts'', Some ''H0''), (Some ''M:b.ts'', Some ''H1''),
                (Some ''M:c.ts'', None), (None, Some ''H3'')]"

text \<open>A file with more than twenty distinct tokens.\<close>

definition demo_kw_text :: string where
  "demo_kw_text = ''class User {} function Build() {} class Extra {} const Z9 = 1''"

definition demo_kw_file :: working_file where
  "demo_kw_file =
     \<lparr>rel_path = ''pa/pb/pc/pd/pe/pf/pg/ph/pi/pj/pk/pl/pm/pn/po/pp/pq/User.ts'',
      abs_path = ''/r/pa/pb/pc/pd/pe/pf/pg/ph/pi/pj/pk/pl/pm/pn/po/pp/pq/User.ts'',
      ext = ''.ts''\<rparr>"

text \<open>An importer in a subdirectory, a PHP importer, and a file that cannot be read.\<close>

definition demo_src_importer :: working_file where
  "demo_src_importer = \<lparr>rel_path = ''src/a.ts'', abs_path = ''/r/src/a.ts'', ext = ''.ts''\<rparr>"

definition demo_php_importer :: working_file where
  "demo_php_importer = \<lparr>rel_path = ''x.php'', abs_path = ''/r/x.php'', ext = ''.php''\<rparr>"

definition demo_unreadable :: working_file where
  "demo_unreadable = \<lparr>rel_path = ''gone.ts'', abs_path = ''/r/gone.ts'', ext = ''.ts''\<rparr>"

subsection \<open>Notions used to state the scanner's properties\<close>

text \<open>
  The names a directory listing can hold, and a tree all of whose names are such. The
  lines of the two ignore files. What the scanner relies on from the pattern compiler:
  a default name compiles to an including pattern that matches every path ending in
  that name; no negating line of the ignore files matches a path ending in a default
  name.
\<close>

definition valid_name :: "string \<Rightarrow> bool" where
  "valid_name n = (n \<noteq> [] \<and> CHR ''/'' \<notin> set n \<and> n \<noteq> ''.'')"

fun valid_tree :: "dir \<Rightarrow> bool"
  and valid_dirs :: "(string \<times> dir) list \<Rightarrow> bool"
where
  "valid_tree (Dir subs fnames) = (list_all valid_name fnames \<and> valid_dirs subs)"
| "valid_dirs [] = True"
| "valid_dirs ((d, t) # rest) = (valid_name d \<and> valid_tree t \<and> valid_dirs rest)"

definition user_lines :: "string list option \<Rightarrow> string list option \<Rightarrow> string list" where
  "user_lines gitignore ignore_file =
     (case gitignore of None \<Rightarrow> [] | Some ls \<Rightarrow> ls) @
     (case ignore_file of None \<Rightarrow> [] | Some ls \<Rightarrow> ls)"

definition default_names_match :: "(string \<Rightarrow> pattern) \<Rightarrow> bool" where
  "default_names_match compile =
     (\<forall>n \<in> set DEFAULT_IGNORES. p_include (compile n) = Some True \<and>
        (\<forall>p. last (split_on CHR ''/'' p) = n \<longrightarrow> p_match (compile n) p))"

definition no_reinclude :: "(string \<Rightarrow> pattern) \<Rightarrow> string list \<Rightarrow> bool" where
  "no_reinclude compile ls =
     (\<forall>l \<in> set ls. p_include (compile l) = Some False \<longrightarrow>
        (\<forall>p. last (split_on CHR ''/'' p) \<in> set DEFAULT_IGNORES \<longrightarrow> \<not> p_match (compile l) p))"

text \<open>
  An identity is that of a scanned file; a state all of whose rows carry identities of
  scanned files and whose recorded hashes are those of the hashing helper.
\<close>

definition scanned_id :: "env \<Rightarrow> working_file list \<Rightarrow> string \<Rightarrow> bool" where
  "scanned_id ev wfs m = (m \<in> (\<lambda>w. merge_hash (get_path_hashes ev (rel_path w))) ` set wfs)"

definition from_scanned :: "env \<Rightarrow> working_file list \<Rightarrow> run_state \<Rightarrow> bool" where
  "from_scanned ev wfs st =
     ((\<forall>p h. file_hashes st p = Some h \<longrightarrow> h = get_path_hashes ev p) \<and>
      list_all (\<lambda>r. scanned_id ev wfs (row_merge_hash r)) (keywords_rows st) \<and>
      list_all (\<lambda>e. scanned_id ev wfs (src_merge_hash e) \<and> scanned_id ev wfs (dst_merge_hash e))
        (relations st))"

text \<open>A working tree with ignored directories, and ignore files without negation.\<close>

definition demo_tree :: dir where
  "demo_tree =
     Dir [(''node_modules'', Dir [] [''y.js'']),
          (''build'', Dir [] [''z.ts'']),
          (''src'', Dir [(''dist'', Dir [] [''w.ts''])] [''m.php'', ''notes.txt''])]
         [''a.ts'', ''b.ts'', ''c.ts'', ''u.ts'']"

definition demo_gitignore :: "string list" where
  "demo_gitignore = [''out'', ''coverage/'']"

definition demo_scan :: "working_file list" where
  "demo_scan =
     iter_working_files (build_ignore_spec gitwildmatch_name (Some demo_gitignore) None)
       ''/r'' demo_tree"

section \<open>Properties of the run\<close>

subsection \<open>The loops keep the recorded keys and the edge list in step\<close>

lemma import_step_keys:
  assumes "import_step ev known wp wfile hashes st t = Inr st'"
    and "imports_seen st = set (map edge_key (relations st))"
    and "distinct (map edge_key (relations st))"
  shows "imports_seen st' = set (map edge_key (relations st')) \<and>
         distinct (map edge_key (relations st'))"
  using assms
  by (auto simp: import_step_def Let_def edge_key_def
           split: sum.splits option.splits if_splits)

lemma import_loop_keys:
  assumes "import_loop ev known wp wfile hashes st ts = Inr st'"
    and "imports_seen st = set (map edge_key (relations st))"
    and "distinct (map edge_key (relations st))"
  shows "imports_seen st' = set (map edge_key (relations st')) \<and>
         distinct (map edge_key (relations st'))"
  using assms
proof (induction ts arbitrary: st)
  case Nil
  then show ?case by simp
next
  case (Cons t ts)
  then obtain st1 where s1: "import_step ev known wp wfile hashes st t = Inr st1"
    and l1: "import_loop ev known wp wfile hashes st1 ts = Inr st'"
    by (auto split: sum.splits)
  from import_step_keys[OF s1 Cons.prems(2) Cons.prems(3)] Cons.IH[OF l1]
  show ?case by blast
qed

lemma file_step_keys:
  assumes "file_step ev known wp st wfile = Inr st'"
    and "imports_seen st = set (map edge_key (relations st))"
    and "distinct (map edge_key (relations st))"
  shows "imports_seen st' = set (map edge_key (relations st')) \<and>
         distinct (map edge_key (relations st'))"
proof (cases "file_hashes st (rel_path wfile)")
  case None
  with assms(1) show ?thesis by (simp add: file_step_def)
next
  case (Some hashes)
  show ?thesis
  proof (cases "in_known (merge_hash hashes) known")
    case False
    with Some assms show ?thesis by (simp add: file_step_def)
  next
    case True
    define st1 where "st1 = st\<lparr>keywords_rows := keywords_rows st @
        [\<lparr>row_merge_hash = merge_hash hashes, row_hash = hash hashes,
          row_keywords = extract_keywords (read_text ev) wfile\<rparr>]\<rparr>"
    from Some True assms(1) obtain ts
      where "import_loop ev known wp wfile hashes st1 ts = Inr st'"
      by (auto simp: file_step_def Let_def st1_def split: sum.splits)
    moreover have "imports_seen st1 = set (map edge_key (relations st1))"
      and "distinct (map edge_key (relations st1))"
      using assms(2,3) by (simp_all add: st1_def)
    ultimately show ?thesis by (rule import_loop_keys)
  qed
qed

lemma file_loop_keys:
  assumes "file_loop ev known wp st wfs = Inr st'"
    and "imports_seen st = set (map edge_key (relations st))"
    and "distinct (map edge_key (relations st))"
  shows "imports_seen st' = set (map edge_key (relations st')) \<and>
         distinct (map edge_key (relations st'))"
  using assms
proof (induction wfs arbitrary: st)
  case Nil
  then show ?case by simp
next
  case (Cons w wfs)
  then obtain st1 where s1: "file_step ev known wp st w = Inr st1"
    and l1: "file_loop ev known wp st1 wfs = Inr st'"
    by (auto split: sum.splits)
  from file_step_keys[OF s1 Cons.prems(2) Cons.prems(3)] Cons.IH[OF l1]
  show ?case by blast
qed

lemma materialize_distinct_keys:
  assumes "materialize ev known wfs = Inr st"
  shows "distinct (map edge_key (relations st))"
proof -
  have "imports_seen (initial_state ev wfs) = set (map edge_key (relations (initial_state ev wfs)))"
    and "distinct (map edge_key (relations (initial_state ev wfs)))"
    by (simp_all add: initial_state_def)
  with assms show ?thesis
    unfolding materialize_def by (blast dest: file_loop_keys)
qed

lemma import_step_seen_key:
  assumes "resolve_target wfile t wp = Inr (Some r)"
    and "(merge_hash hashes, merge_hash (hashes_for ev st r)) \<in> imports_seen st"
  shows "\<exists>st'. import_step ev known wp wfile hashes st t = Inr st' \<and>
               relations st' = relations st"
  using assms
  by (auto simp: import_step_def Let_def hashes_for_def split: option.splits)

subsection \<open>The rows refer to known identities only\<close>

lemma import_step_known:
  assumes "import_step ev known wp wfile hashes st t = Inr st'"
    and "in_known (merge_hash hashes) known"
    and "rows_known known st"
  shows "rows_known known st'"
  using assms
  by (auto simp: import_step_def Let_def rows_known_def
           split: sum.splits option.splits if_splits)

lemma import_loop_known:
  assumes "import_loop ev known wp wfile hashes st ts = Inr st'"
    and "in_known (merge_hash hashes) known"
    and "rows_known known st"
  shows "rows_known known st'"
  using assms
proof (induction ts arbitrary: st)
  case Nil
  then show ?case by simp
next
  case (Cons t ts)
  then obtain st1 where s1: "import_step ev known wp wfile hashes st t = Inr st1"
    and l1: "import_loop ev known wp wfile hashes st1 ts = Inr st'"
    by (auto split: sum.splits)
  from import_step_known[OF s1 Cons.prems(2) Cons.prems(3)]
  show ?case by (rule Cons.IH[OF l1 Cons.prems(2)])
qed

lemma file_step_known:
  assumes "file_step ev known wp st wfile = Inr st'"
    and "rows_known known st"
  shows "rows_known known st'"
proof (cases "file_hashes st (rel_path wfile)")
  case None
  with assms(1) show ?thesis by (simp add: file_step_def)
next
  case (Some hashes)
  show ?thesis
  proof (cases "in_known (merge_hash hashes) known")
    case False
    with Some assms show ?thesis by (simp add: file_step_def)
  next
    case True
    define st1 where "st1 = st\<lparr>keywords_rows := keywords_rows st @
        [\<lparr>row_merge_hash = merge_hash hashes, row_hash = hash hashes,
          row_keywords = extract_keywords (read_text ev) wfile\<rparr>]\<rparr>"
    from Some True assms(1) obtain ts
      where "import_loop ev known wp wfile hashes st1 ts = Inr st'"
      by (auto simp: file_step_def Let_def st1_def split: sum.splits)
    moreover have "rows_known known st1"
      using assms(2) True by (simp add: st1_def rows_known_def)
    ultimately show ?thesis using True by (blast intro: import_loop_known)
  qed
qed

lemma file_loop_known:
  assumes "file_loop ev known wp st wfs = Inr st'"
    and "rows_known known st"
  shows "rows_known known st'"
  using assms
proof (induction wfs arbitrary: st)
  case Nil
  then show ?case by simp
next
  case (Cons w wfs)
  then obtain st1 where s1: "file_step ev known wp st w = Inr st1"
    and l1: "file_loop ev known wp st1 wfs = Inr st'"
    by (auto split: sum.splits)
  from file_step_known[OF s1 Cons.prems(2)] show ?case by (rule Cons.IH[OF l1])
qed

lemma materialize_known:
  assumes "materialize ev known wfs = Inr st"
  shows "rows_known known st"
proof -
  have "rows_known known (initial_state ev wfs)"
    by (simp add: initial_state_def rows_known_def)
  with assms show ?thesis
    unfolding materialize_def by (rule file_loop_known)
qed

lemma demo_materialize_returns:
  "(case materialize demo_env (load_known_files demo_rows) demo_files of
      Inl e \<Rightarrow> False | Inr st \<Rightarrow> True)"
  by code_simp

section \<open>Properties of the keyword extractor\<close>

lemma first_occurrences_Nil: "first_occurrences [] = []"
  by (simp add: first_occurrences_def)

lemma first_occurrences_Cons:
  "first_occurrences (x # xs) = x # first_occurrences (filter (\<lambda>y. y \<noteq> x) xs)"
proof -
  have "remdups (ys @ [x]) = remdups (filter (\<lambda>y. y \<noteq> x) ys) @ [x]" for ys
    by (induction ys) auto
  then show ?thesis
    by (simp add: first_occurrences_def rev_filter)
qed

lemma set_first_occurrences: "set (first_occurrences xs) = set xs"
  by (simp add: first_occurrences_def)

lemma distinct_first_occurrences: "distinct (first_occurrences xs)"
  by (simp add: first_occurrences_def)

text \<open>The loop that appends what is not yet there keeps the first occurrences.\<close>

lemma foldl_insert_new:
  "foldl (\<lambda>a l. if l \<in> set a then a else a @ [l]) acc ls =
     acc @ first_occurrences (filter (\<lambda>l. l \<notin> set acc) ls)"
proof (induction ls arbitrary: acc)
  case Nil
  show ?case by (simp add: first_occurrences_Nil)
next
  case (Cons l ls)
  show ?case
  proof (cases "l \<in> set acc")
    case True
    then show ?thesis by (simp add: Cons.IH)
  next
    case False
    have "filter (\<lambda>y. y \<noteq> l) (filter (\<lambda>l. l \<notin> set acc) ls) =
          filter (\<lambda>x. x \<notin> set (acc @ [l])) ls"
      by (induction ls) auto
    with False show ?thesis
      by (simp add: Cons.IH first_occurrences_Cons)
  qed
qed

lemma foldl_add_keyword:
  "foldl add_keyword acc toks =
     foldl (\<lambda>a l. if l \<in> set a then a else a @ [l]) acc (filter keyword_ok (map lower toks))"
  by (induction toks arbitrary: acc) (auto simp: add_keyword_def keyword_ok_def Let_def)

lemma foldl_nested:
  "foldl (\<lambda>kws pat. foldl f kws (g pat)) acc pats = foldl f acc (concat (map g pats))"
  by (induction pats arbitrary: acc) auto

lemma extract_keywords_eq:
  "extract_keywords rd file =
     take KEYWORD_LIMIT (first_occurrences (filter keyword_ok
        (map lower (path_tokens file @ ident_tokens rd file))))"
proof -
  have "foldl (\<lambda>kws pat. foldl add_keyword kws (findall pat (snippet_of rd file)))
          (foldl add_keyword [] (path_tokens file)) ident_patterns =
        foldl add_keyword [] (path_tokens file @ ident_tokens rd file)"
    by (simp add: foldl_nested ident_tokens_def)
  then have a: "extract_keywords rd file =
      take KEYWORD_LIMIT (foldl add_keyword [] (path_tokens file @ ident_tokens rd file))"
    by (simp only: extract_keywords_def Let_def)
  have b: "foldl add_keyword [] toks =
      first_occurrences (filter keyword_ok (map lower toks))" for toks
    by (simp add: foldl_add_keyword foldl_insert_new)
  show ?thesis unfolding a b by (rule refl)
qed

lemma lower_char_not_upper: "\<not> is_upper (lower_char c)"
  by (auto simp: lower_char_def is_upper_def Let_def)

lemma no_upper_lower: "no_upper (lower s)"
  by (simp add: no_upper_def lower_def list_all_iff lower_char_not_upper)

section \<open>Properties of the import extractor and of the PHP heuristic\<close>

text \<open>The extractor raises exactly when a file with a language and a parser cannot be read.\<close>

lemma extract_imports_raises_iff:
  "extract_imports ev file = Inl e \<longleftrightarrow>
     (\<exists>lang parser. filename_to_lang ev (rel_path file) = Some lang \<and> lang \<noteq> [] \<and>
        get_parser ev lang = Some parser \<and> read_bytes ev (abs_path file) = None \<and>
        e = OSError)"
  by (auto simp: extract_imports_def Let_def split: option.splits)

lemma extract_imports_soft:
  "filename_to_lang ev (rel_path file) = None \<Longrightarrow> extract_imports ev file = Inr []"
  "filename_to_lang ev (rel_path file) = Some [] \<Longrightarrow> extract_imports ev file = Inr []"
  "filename_to_lang ev (rel_path file) = Some lang \<Longrightarrow> get_parser ev lang = None \<Longrightarrow>
     extract_imports ev file = Inr []"
  by (auto simp: extract_imports_def split: option.splits)

text \<open>
  Where the converted namespace name has a last component, the PHP heuristic tries its
  two candidates in order and then falls through to the general resolution.
\<close>

lemma php_heuristic_two_candidates:
  assumes "target \<noteq> []"
    and "\<not> (startswith target ''http://'' \<or> startswith target ''https://'')"
    and "clean target \<noteq> []"
    and "php_case importer (clean target)"
    and "name (php_guess (clean target)) \<noteq> []"
  shows "\<exists>c1. with_suffix (php_guess (clean target)) ''.php'' = Inr c1 \<and>
           resolve_target importer target known =
             Inr (case first_known [as_posix c1,
                         as_posix (path_div (php_guess (clean target)) ''index.php'')] known of
                    Some c \<Rightarrow> Some c
                  | None \<Rightarrow> resolve_general importer (clean target) known)"
proof -
  from assms(5) obtain c1 where c1: "with_suffix (php_guess (clean target)) ''.php'' = Inr c1"
    by (auto simp: with_suffix_def startswith_def Let_def)
  with assms(1-4) have "resolve_target importer target known =
             Inr (case first_known [as_posix c1,
                         as_posix (path_div (php_guess (clean target)) ''index.php'')] known of
                    Some c \<Rightarrow> Some c
                  | None \<Rightarrow> resolve_general importer (clean target) known)"
    by (auto simp: resolve_target_def Let_def php_candidates_def split: option.splits)
  with c1 show ?thesis by blast
qed

section \<open>Properties of the candidate search\<close>

lemma first_known_find: "first_known cs known = List.find (\<lambda>c. c \<in> known) cs"
  by (induction cs) auto

lemma first_known_None: "first_known cs known = None \<longleftrightarrow> set cs \<inter> known = {}"
  by (induction cs) auto

lemma first_known_Some_mem: "first_known cs known = Some c \<Longrightarrow> c \<in> set cs \<and> c \<in> known"
  by (induction cs) (auto split: if_splits)

lemma candidate_paths_unfold:
  "candidate_paths b =
     (if suffix (Path_of [b]) \<noteq> [] then [as_posix (Path_of [b])]
      else [b @ ''.ts'', b @ ''.tsx'', b @ ''.js'', b @ ''.jsx'', b @ ''.mjs'', b @ ''.cjs'',
            b @ ''.php'',
            as_posix (Path_of [b, ''index.ts'']), as_posix (Path_of [b, ''index.tsx'']),
            as_posix (Path_of [b, ''index.js'']), as_posix (Path_of [b, ''index.jsx'']),
            as_posix (Path_of [b, ''index.mjs'']), as_posix (Path_of [b, ''index.cjs'']),
            as_posix (Path_of [b, ''index.php''])])"
  by (simp add: candidate_paths_def Let_def EXTS_def)

section \<open>Properties of splitting, joining and paths\<close>

lemma split_on_nonempty: "split_on c s \<noteq> []"
  by (induction s) (auto split: list.splits)

lemma split_on_no_sep: "x \<in> set (split_on c s) \<Longrightarrow> c \<notin> set x"
proof (induction s arbitrary: x)
  case Nil
  then show ?case by simp
next
  case (Cons y ys)
  then show ?case
    by (cases "split_on c ys") (auto split: if_splits)
qed

lemma split_on_single: "c \<notin> set x \<Longrightarrow> split_on c x = [x]"
  by (induction x) auto

lemma split_on_append_sep:
  "c \<notin> set x \<Longrightarrow> split_on c (x @ c # s) = x # split_on c s"
  by (induction x) auto

lemma split_on_join:
  "cs \<noteq> [] \<Longrightarrow> \<forall>x \<in> set cs. c \<notin> set x \<Longrightarrow> split_on c (join_on [c] cs) = cs"
proof (induction "[c]" cs rule: join_on.induct)
  case (1)
  then show ?case by simp
next
  case (2 x)
  then show ?case by (simp add: split_on_single)
next
  case (3 x y ys)
  then show ?case by (simp add: split_on_append_sep)
qed

lemma split_on_append_suffix:
  "c \<notin> set e \<Longrightarrow>
     split_on c (s @ e) = butlast (split_on c s) @ [last (split_on c s) @ e]"
proof (induction s)
  case Nil
  then show ?case by (simp add: split_on_single)
next
  case (Cons y ys)
  then show ?case
    using split_on_nonempty[of c ys] split_on_nonempty[of c "ys @ e"]
    by (cases "split_on c ys"; cases "split_on c (ys @ e)") (auto split: if_splits)
qed

lemma split_on_dropWhile:
  "x \<noteq> [] \<Longrightarrow> x \<in> set (split_on c (dropWhile (\<lambda>y. y = c) s)) \<longleftrightarrow> x \<in> set (split_on c s)"
  by (induction s) auto

lemma split_on_replace:
  "b \<noteq> c \<Longrightarrow>
     split_on c (map (\<lambda>y. if y = b then c else y) s) = concat (map (split_on b) (split_on c s))"
proof (induction s)
  case Nil
  then show ?case by simp
next
  case (Cons y ys)
  then show ?case
    using split_on_nonempty[of c ys] split_on_nonempty[of b "hd (split_on c ys)"]
    by (cases "split_on c ys"; cases "split_on b (hd (split_on c ys))")
       (auto split: if_splits)
qed


lemma Path_of_single: "Path_of [s] = parse_part s"
  by (cases "parse_part s") (auto simp: Path_of_def Let_def parse_part_def splitroot_def)

lemma parse_part_ok: "path_ok (parse_part s)"
  by (auto simp: path_ok_def parse_part_def splitroot_def Let_def list_all_iff
           dest: split_on_no_sep)

lemma parse_part_dotdot: "has_dotdot s \<Longrightarrow> ''..'' \<in> set (p_parts (parse_part s))"
  by (auto simp: has_dotdot_def parse_part_def splitroot_def Let_def split_on_dropWhile)

lemma split_on_root_join:
  assumes "path_ok p" and "p_parts p \<noteq> []"
  shows "set (p_parts p) \<subseteq> set (split_on CHR ''/'' (as_posix p))"
proof -
  from assms(1) have "\<forall>x \<in> set (p_parts p). CHR ''/'' \<notin> set x"
    by (simp add: path_ok_def list_all_iff)
  with assms(2) have "split_on CHR ''/'' (join_on ''/'' (p_parts p)) = p_parts p"
    by (simp add: split_on_join)
  with assms show ?thesis
    by (auto simp: as_posix_def path_ok_def)
qed

lemma startswith_refl: "startswith s s"
  by (simp add: startswith_def)

lemma startswith_append: "startswith x p \<Longrightarrow> startswith (x @ e) p"
proof -
  assume a: "startswith x p"
  then have "length (take (length p) x) = length p"
    by (simp add: startswith_def)
  then have "length p \<le> length x"
    by simp
  with a show ?thesis by (simp add: startswith_def)
qed

lemma as_posix_dotdot:
  assumes "path_ok p" and "''..'' \<in> set (p_parts p)"
  shows "has_dotdot (as_posix p)"
proof -
  from assms(2) have "p_parts p \<noteq> []" by auto
  from split_on_root_join[OF assms(1) this] assms(2) show ?thesis
    by (auto simp: has_dotdot_def)
qed

lemma as_posix_dotdot_start:
  assumes "path_ok p" and "x \<in> set (p_parts p)" and "startswith x ''..''"
  shows "dotdot_start (as_posix p)"
proof -
  from assms(2) have "p_parts p \<noteq> []" by auto
  from split_on_root_join[OF assms(1) this] assms(2,3) show ?thesis
    by (auto simp: dotdot_start_def list_ex_iff)
qed

lemma has_dotdot_start: "has_dotdot s \<Longrightarrow> dotdot_start s"
  unfolding has_dotdot_def dotdot_start_def list_ex_iff
  using startswith_refl by blast

lemma dotdot_start_append:
  assumes "has_dotdot s" and "CHR ''/'' \<notin> set e"
  shows "dotdot_start (s @ e)"
proof -
  let ?cs = "split_on CHR ''/'' s"
  have ne: "?cs \<noteq> []" by (rule split_on_nonempty)
  have eq: "split_on CHR ''/'' (s @ e) = butlast ?cs @ [last ?cs @ e]"
    using assms(2) by (rule split_on_append_suffix)
  from assms(1) have "''..'' \<in> set (butlast ?cs @ [last ?cs])"
    using ne by (simp add: has_dotdot_def)
  then have "''..'' \<in> set (butlast ?cs) \<or> last ?cs = ''..''"
    by auto
  then show ?thesis
  proof
    assume "''..'' \<in> set (butlast ?cs)"
    then show ?thesis
      unfolding dotdot_start_def eq list_ex_iff using startswith_refl by auto
  next
    assume l: "last ?cs = ''..''"
    have "startswith (''..'' @ e) ''..''"
      by (rule startswith_append[OF startswith_refl])
    with l have "startswith (last ?cs @ e) ''..''"
      by simp
    then show ?thesis
      unfolding dotdot_start_def eq list_ex_iff by auto
  qed
qed

lemma Path_of_pair:
  "b \<noteq> [] \<Longrightarrow> p_root (parse_part b) = [] \<Longrightarrow>
     Path_of [a, b] = Path (p_root (parse_part a)) (p_parts (parse_part a) @ p_parts (parse_part b))"
  by (cases "parse_part a")
     (auto simp: Path_of_def Let_def parse_part_def splitroot_def)

lemma path_div_parts:
  "set (p_parts (parse_part key)) \<subseteq> set (p_parts (path_div p key))"
  by (auto simp: path_div_def Let_def Path_of_single)

lemma path_div_ok: "path_ok p \<Longrightarrow> path_ok (path_div p key)"
  using parse_part_ok[of key]
  by (auto simp: path_div_def Let_def Path_of_single path_ok_def)

lemma parent_ok: "path_ok p \<Longrightarrow> path_ok (parent p)"
  by (auto simp: parent_def path_ok_def list_all_iff dest: in_set_butlastD)

lemma base_path_dotdot:
  assumes "has_dotdot cleaned"
  shows "has_dotdot (base_path importer cleaned)"
proof -
  define rel where "rel = (if startswith cleaned ''/'' then drop 1 cleaned else cleaned)"
  define d where "d = (if as_posix (parent (Path_of [rel_path importer])) = ''.''
                       then Path_of [[]] else parent (Path_of [rel_path importer]))"
  have b: "base_path importer cleaned = as_posix (path_div d rel)"
    by (simp add: base_path_def Let_def rel_def d_def)
  have "has_dotdot rel"
  proof (cases "startswith cleaned ''/''")
    case True
    then obtain rest where "cleaned = CHR ''/'' # rest"
      by (cases cleaned) (auto simp: startswith_def)
    with assms True show ?thesis
      by (auto simp: rel_def has_dotdot_def)
  next
    case False
    with assms show ?thesis by (simp add: rel_def)
  qed
  then have "''..'' \<in> set (p_parts (path_div d rel))"
    using path_div_parts[of rel d] parse_part_dotdot by blast
  moreover have "path_ok d"
    by (simp add: d_def Path_of_single parse_part_ok parent_ok)
  then have "path_ok (path_div d rel)" by (rule path_div_ok)
  ultimately show ?thesis
    unfolding b by (simp add: as_posix_dotdot)
qed

lemma index_part: "e \<in> set EXTS \<Longrightarrow> parse_part (''index'' @ e) = Path [] [''index'' @ e]"
  by (auto simp: EXTS_def parse_part_def splitroot_def)

lemma candidate_paths_dotdot:
  assumes "has_dotdot b" and "c \<in> set (candidate_paths b)"
  shows "dotdot_start c"
proof (cases "suffix (Path_of [b]) \<noteq> []")
  case True
  with assms(2) have "c = as_posix (parse_part b)"
    by (simp add: candidate_paths_def Let_def Path_of_single)
  with assms(1) show ?thesis
    by (simp add: has_dotdot_start as_posix_dotdot parse_part_ok parse_part_dotdot)
next
  case False
  with assms(2) consider e where "e \<in> set EXTS" "c = b @ e"
    | e where "e \<in> set EXTS" "c = as_posix (Path_of [b, ''index'' @ e])"
    by (auto simp: candidate_paths_def Let_def)
  then show ?thesis
  proof cases
    case 1
    then have "CHR ''/'' \<notin> set e" by (auto simp: EXTS_def)
    with assms(1) 1 show ?thesis by (simp add: dotdot_start_append)
  next
    case 2
    let ?p = "Path (p_root (parse_part b)) (p_parts (parse_part b) @ [''index'' @ e])"
    have ne: "''index'' @ e \<noteq> []" by simp
    have ip: "parse_part (''index'' @ e) = Path [] [''index'' @ e]"
      using 2(1) by (rule index_part)
    then have r: "p_root (parse_part (''index'' @ e)) = []" by simp
    have eq: "Path_of [b, ''index'' @ e] = ?p"
      using Path_of_pair[OF ne r, of b] ip by simp
    have "CHR ''/'' \<notin> set e" using 2 by (auto simp: EXTS_def)
    then have "path_ok ?p"
      using parse_part_ok[of b] by (auto simp: path_ok_def)
    moreover have "''..'' \<in> set (p_parts ?p)"
      using assms(1) by (simp add: parse_part_dotdot)
    ultimately show ?thesis
      unfolding 2 eq by (simp add: has_dotdot_start as_posix_dotdot)
  qed
qed


lemma replace_dotdot:
  assumes "has_dotdot s"
  shows "has_dotdot (map (\<lambda>c. if c = backslash then CHR ''/'' else c) s)"
proof -
  have ne: "backslash \<noteq> CHR ''/''" by (simp add: backslash_def)
  have one: "split_on backslash ''..'' = [''..'']"
    by (simp add: backslash_def)
  from assms have "''..'' \<in> set (split_on CHR ''/'' s)" by (simp add: has_dotdot_def)
  then have "''..'' \<in> set (concat (map (split_on backslash) (split_on CHR ''/'' s)))"
    using one by (auto intro!: bexI[of _ "''..''"])
  then show ?thesis
    unfolding has_dotdot_def split_on_replace[OF ne] .
qed

lemma suffix_dotdot: "p_parts p \<noteq> [] \<Longrightarrow> last (p_parts p) = ''..'' \<Longrightarrow> suffix p = []"
  by (simp add: suffix_def name_def rfind_def Let_def)

lemma php_candidates_dotdot:
  assumes "has_dotdot cleaned"
  shows "\<exists>cands. php_candidates cleaned = Inr cands \<and> (\<forall>c \<in> set cands. dotdot_start c)"
proof -
  let ?g = "php_guess cleaned"
  have g: "?g = parse_part (map (\<lambda>c. if c = backslash then CHR ''/'' else c) cleaned)"
    by (simp add: php_guess_def Path_of_single)
  have ok: "path_ok ?g" unfolding g by (rule parse_part_ok)
  have dd: "''..'' \<in> set (p_parts ?g)"
    unfolding g using assms by (intro parse_part_dotdot replace_dotdot)
  then have ne: "p_parts ?g \<noteq> []" by auto
  from ok ne have nm: "name ?g \<noteq> []" "CHR ''/'' \<notin> set (name ?g)"
    by (auto simp: name_def path_ok_def list_all_iff)
  define n where "n = (if suffix ?g = [] then name ?g @ ''.php''
                       else take (length (name ?g) - length (suffix ?g)) (name ?g) @ ''.php'')"
  define c1 where "c1 = Path (p_root ?g) (butlast (p_parts ?g) @ [n])"
  have ws: "with_suffix ?g ''.php'' = Inr c1"
    using nm(1) by (simp add: with_suffix_def startswith_def Let_def c1_def n_def)
  have n_ok: "CHR ''/'' \<notin> set n" "n \<noteq> []"
    using nm(2) by (auto simp: n_def dest: in_set_takeD)
  have ok1: "path_ok c1"
    using ok n_ok by (auto simp: c1_def path_ok_def list_all_iff dest: in_set_butlastD)
  have "\<exists>x \<in> set (p_parts c1). startswith x ''..''"
  proof (cases "''..'' \<in> set (butlast (p_parts ?g))")
    case True
    then show ?thesis using startswith_refl by (auto simp: c1_def)
  next
    case False
    with dd ne have l: "last (p_parts ?g) = ''..''"
      by (metis append_butlast_last_id Un_iff insert_iff list.set(1) list.set(2) set_append
          empty_iff)
    then have "suffix ?g = []" using ne by (simp add: suffix_dotdot)
    then have "n = ''..'' @ ''.php''" using l ne by (simp add: n_def name_def)
    moreover have "startswith (''..'' @ ''.php'') ''..''"
      by (rule startswith_append[OF startswith_refl])
    ultimately show ?thesis by (simp add: c1_def)
  qed
  with ok1 have d1: "dotdot_start (as_posix c1)"
    by (blast intro: as_posix_dotdot_start)
  have pd: "path_div ?g ''index.php'' = Path (p_root ?g) (p_parts ?g @ [''index.php''])"
    by (simp add: path_div_def Let_def Path_of_single parse_part_def splitroot_def)
  have "path_ok (path_div ?g ''index.php'')" using ok by (rule path_div_ok)
  moreover have "''..'' \<in> set (p_parts (path_div ?g ''index.php''))"
    using dd by (simp add: pd)
  ultimately have d2: "dotdot_start (as_posix (path_div ?g ''index.php''))"
    by (simp add: as_posix_dotdot has_dotdot_start)
  from ws d1 d2 show ?thesis
    by (simp add: php_candidates_def)
qed

lemma first_known_none: "\<forall>c \<in> set cs. c \<notin> known \<Longrightarrow> first_known cs known = None"
  by (induction cs) auto

section \<open>Properties of the ignore rules and of the scanner\<close>

lemma match_step_stays:
  "\<forall>q \<in> set post. p_include q = Some False \<longrightarrow> \<not> p_match q f \<Longrightarrow>
   foldl (match_step f) True post"
proof (induction post)
  case Nil
  show ?case by simp
next
  case (Cons q post)
  then have "match_step f True q"
    by (cases "p_include q") (auto simp: match_step_def)
  with Cons show ?case by simp
qed

lemma match_file_last_wins:
  assumes "p_include p = Some True" and "p_match p f"
    and "\<forall>q \<in> set post. p_include q = Some False \<longrightarrow> \<not> p_match q f"
  shows "match_file (pre @ [p] @ post) f"
proof -
  from assms(1,2) have "match_step f m p" for m
    by (simp add: match_step_def)
  with match_step_stays[OF assms(3)] show ?thesis
    by (simp add: match_file_def)
qed

lemma default_ignored:
  assumes "default_names_match compile"
    and "no_reinclude compile (user_lines gitignore ignore_file)"
    and "last (split_on CHR ''/'' f) \<in> set DEFAULT_IGNORES"
  shows "should_ignore (build_ignore_spec compile gitignore ignore_file) f"
proof -
  let ?d = "last (split_on CHR ''/'' f)"
  from assms(3) obtain xs ys where sp: "DEFAULT_IGNORES = xs @ ?d # ys"
    by (auto dest: split_list)
  let ?pre = "map compile (map (\<lambda>p. p @ ''/'') DEFAULT_IGNORES @ xs)"
  let ?post = "map compile (ys @ user_lines gitignore ignore_file)"
  have spec: "build_ignore_spec compile gitignore ignore_file = ?pre @ [compile ?d] @ ?post"
    unfolding build_ignore_spec_def Let_def user_lines_def
    by (subst (2) sp) simp
  have inc: "p_include (compile ?d) = Some True" and mt: "p_match (compile ?d) f"
    using assms(1,3) by (auto simp: default_names_match_def)
  have "set ys \<subseteq> set DEFAULT_IGNORES"
    by (subst sp) auto
  then have a: "\<forall>q \<in> set (map compile ys). p_include q \<noteq> Some False"
    using assms(1) by (auto simp: default_names_match_def)
  have b: "\<forall>q \<in> set (map compile (user_lines gitignore ignore_file)).
             p_include q = Some False \<longrightarrow> \<not> p_match q f"
    using assms(2,3) by (auto simp: no_reinclude_def)
  from a b have post: "\<forall>q \<in> set ?post. p_include q = Some False \<longrightarrow> \<not> p_match q f"
    by auto
  show ?thesis
    unfolding should_ignore_def spec
    using inc mt post by (rule match_file_last_wins)
qed

lemma join_on_snoc:
  "cs \<noteq> [] \<Longrightarrow> join_on s (cs @ [n]) = join_on s cs @ s @ n"
  by (induction s cs rule: join_on.induct) auto

lemma join_on_nonempty:
  "cs \<noteq> [] \<Longrightarrow> hd cs \<noteq> [] \<Longrightarrow> join_on s cs \<noteq> []"
  by (induction s cs rule: join_on.induct) auto

lemma join_on_hd:
  "cs \<noteq> [] \<Longrightarrow> hd cs \<noteq> [] \<Longrightarrow> hd (join_on s cs) = hd (hd cs)"
  by (induction s cs rule: join_on.induct) auto

lemma parse_part_join:
  assumes "list_all valid_name cs"
  shows "parse_part (join_on ''/'' cs) = Path [] cs"
proof (cases "cs = []")
  case True
  then show ?thesis by (simp add: parse_part_def splitroot_def)
next
  case False
  from assms have v: "\<forall>x \<in> set cs. CHR ''/'' \<notin> set x \<and> x \<noteq> [] \<and> x \<noteq> ''.''"
    by (auto simp: list_all_iff valid_name_def)
  with False have h: "hd cs \<noteq> []" "CHR ''/'' \<notin> set (hd cs)"
    by (cases cs; simp)+
  then have "hd (hd cs) \<noteq> CHR ''/''"
    by (cases "hd cs") auto
  with False h have "hd (join_on ''/'' cs) \<noteq> CHR ''/''"
    by (simp add: join_on_hd)
  then have sr: "splitroot (join_on ''/'' cs) = ([], join_on ''/'' cs)"
    by (simp add: splitroot_def)
  have "split_on CHR ''/'' (join_on ''/'' cs) = cs"
    using False v by (simp add: split_on_join)
  with sr v show ?thesis
    by (simp add: parse_part_def filter_id_conv)
qed

lemma parse_part_name: "valid_name n \<Longrightarrow> parse_part n = Path [] [n]"
  using parse_part_join[of "[n]"] by simp

lemma rel_path_join:
  assumes "list_all valid_name cs" and "valid_name n"
  shows "as_posix (Path_of [join_on ''/'' cs, n]) = join_on ''/'' (cs @ [n])"
    and "os_join (join_on ''/'' cs) n = join_on ''/'' (cs @ [n])"
    and "split_on CHR ''/'' (join_on ''/'' (cs @ [n])) = cs @ [n]"
proof -
  from assms(2) have n: "n \<noteq> []" "p_root (parse_part n) = []"
    by (simp_all add: valid_name_def parse_part_name)
  from Path_of_pair[OF n] assms
  have "Path_of [join_on ''/'' cs, n] = Path [] (cs @ [n])"
    by (simp add: parse_part_join parse_part_name)
  then show "as_posix (Path_of [join_on ''/'' cs, n]) = join_on ''/'' (cs @ [n])"
    by (simp add: as_posix_def)
  show "os_join (join_on ''/'' cs) n = join_on ''/'' (cs @ [n])"
  proof (cases "cs = []")
    case True
    then show ?thesis by (simp add: os_join_def)
  next
    case False
    with assms(1) have "hd cs \<noteq> []"
      by (cases cs) (auto simp: valid_name_def)
    with False show ?thesis
      by (simp add: os_join_def join_on_snoc join_on_nonempty)
  qed
  from assms have "\<forall>x \<in> set (cs @ [n]). CHR ''/'' \<notin> set x"
    by (auto simp: list_all_iff valid_name_def)
  then show "split_on CHR ''/'' (join_on ''/'' (cs @ [n])) = cs @ [n]"
    by (simp add: split_on_join)
qed

lemma files_here_mem:
  "w \<in> set (files_here ignore_spec dp rd fnames) \<Longrightarrow>
     \<exists>f \<in> set fnames. rel_path w = as_posix (Path_of [rd, f]) \<and>
        \<not> should_ignore ignore_spec (rel_path w)"
  by (auto simp: files_here_def Let_def split: if_splits)

lemma walk_no_default:
  assumes dm: "default_names_match compile"
    and nr: "no_reinclude compile (user_lines gitignore ignore_file)"
  shows "ignore_spec = build_ignore_spec compile gitignore ignore_file \<Longrightarrow>
         valid_tree t \<Longrightarrow> rd = join_on ''/'' cs \<Longrightarrow> list_all valid_name cs \<Longrightarrow>
         \<forall>c \<in> set cs. c \<notin> set DEFAULT_IGNORES \<Longrightarrow>
         w \<in> set (walk ignore_spec dp rd t) \<Longrightarrow>
         \<forall>c \<in> set (split_on CHR ''/'' (rel_path w)). c \<notin> set DEFAULT_IGNORES"
    and "ignore_spec = build_ignore_spec compile gitignore ignore_file \<Longrightarrow>
         valid_dirs subs \<Longrightarrow> rd = join_on ''/'' cs \<Longrightarrow> list_all valid_name cs \<Longrightarrow>
         \<forall>c \<in> set cs. c \<notin> set DEFAULT_IGNORES \<Longrightarrow>
         w \<in> set (walk_dirs ignore_spec dp rd subs) \<Longrightarrow>
         \<forall>c \<in> set (split_on CHR ''/'' (rel_path w)). c \<notin> set DEFAULT_IGNORES"
proof (induction ignore_spec dp rd t and ignore_spec dp rd subs arbitrary: cs and cs
       rule: walk_walk_dirs.induct)
  case (1 ignore_spec dirpath rel_dir subs fnames)
  from "1.prems"(6) consider
      (here) "w \<in> set (files_here ignore_spec dirpath rel_dir fnames)"
    | (below) "w \<in> set (walk_dirs ignore_spec dirpath rel_dir subs)"
    by auto
  then show ?case
  proof cases
    case here
    then obtain f where f: "f \<in> set fnames"
      and rp: "rel_path w = as_posix (Path_of [rel_dir, f])"
      and ni: "\<not> should_ignore ignore_spec (rel_path w)"
      by (blast dest: files_here_mem)
    from f "1.prems"(2) have vf: "valid_name f"
      by (simp add: list_all_iff)
    from rel_path_join[OF "1.prems"(4) vf] rp "1.prems"(3)
    have sp: "split_on CHR ''/'' (rel_path w) = cs @ [f]"
      by simp
    have "f \<notin> set DEFAULT_IGNORES"
    proof
      assume "f \<in> set DEFAULT_IGNORES"
      with sp have "last (split_on CHR ''/'' (rel_path w)) \<in> set DEFAULT_IGNORES"
        by simp
      from default_ignored[OF dm nr this] ni "1.prems"(1) show False by simp
    qed
    with sp "1.prems"(5) show ?thesis by auto
  next
    case below
    from "1.prems"(2) have "valid_dirs subs" by simp
    from "1.IH"[OF "1.prems"(1) this "1.prems"(3,4,5) below] show ?thesis .
  qed
next
  case (2 ignore_spec dirpath rel_dir)
  then show ?case by simp
next
  case (3 ignore_spec dirpath rel_dir d t rest)
  from "3.prems"(2) have vd: "valid_name d" and vt: "valid_tree t" and vr: "valid_dirs rest"
    by simp_all
  note rj = rel_path_join[OF "3.prems"(4) vd]
  from "3.prems"(6) consider
      (first) "\<not> should_ignore ignore_spec (as_posix (Path_of [rel_dir, d]))"
        "w \<in> set (walk ignore_spec (dirpath @ ''/'' @ d) (os_join rel_dir d) t)"
    | (others) "w \<in> set (walk_dirs ignore_spec dirpath rel_dir rest)"
    by (auto split: if_splits)
  then show ?case
  proof cases
    case first
    have dn: "d \<notin> set DEFAULT_IGNORES"
    proof
      assume "d \<in> set DEFAULT_IGNORES"
      with rj(1,3) "3.prems"(3)
      have "last (split_on CHR ''/'' (as_posix (Path_of [rel_dir, d]))) \<in> set DEFAULT_IGNORES"
        by simp
      from default_ignored[OF dm nr this] first(1) "3.prems"(1) show False by simp
    qed
    have a: "os_join rel_dir d = join_on ''/'' (cs @ [d])"
      using rj(2) "3.prems"(3) by simp
    have b: "list_all valid_name (cs @ [d])"
      using "3.prems"(4) vd by simp
    have c: "\<forall>c \<in> set (cs @ [d]). c \<notin> set DEFAULT_IGNORES"
      using "3.prems"(5) dn by auto
    from "3.IH"(1)[OF first(1) "3.prems"(1) vt a b c first(2)] show ?thesis .
  next
    case others
    from "3.IH"(2)[OF "3.prems"(1) vr "3.prems"(3,4,5) others] show ?thesis .
  qed
qed

section \<open>The rows of a run come from scanned files\<close>

lemma resolve_target_mem:
  "resolve_target importer target known = Inr (Some r) \<Longrightarrow> r \<in> known"
  by (auto simp: resolve_target_def resolve_general_def Let_def
           split: if_splits sum.splits option.splits dest: first_known_Some_mem)

lemma import_step_result:
  assumes "import_step ev known wp wfile hashes st t = Inr st'"
  shows "st' = st \<or>
    (\<exists>r. resolve_target wfile t wp = Inr (Some r) \<and>
       (file_hashes st' = file_hashes st \<or>
        file_hashes st' = (file_hashes st)(r \<mapsto> get_path_hashes ev r)) \<and>
       keywords_rows st' = keywords_rows st \<and>
       (relations st' = relations st \<or>
        relations st' = relations st @
          [\<lparr>src_merge_hash = merge_hash hashes, src_hash = hash hashes,
            dst_merge_hash = merge_hash (hashes_for ev st r),
            dst_hash = hash (hashes_for ev st r)\<rparr>]))"
  using assms
  by (auto simp: import_step_def Let_def hashes_for_def
           split: sum.splits option.splits if_splits)

lemma import_step_from_scanned:
  assumes "import_step ev known (rel_path ` set wfs) wfile hashes st t = Inr st'"
    and "scanned_id ev wfs (merge_hash hashes)"
    and "from_scanned ev wfs st"
  shows "from_scanned ev wfs st'"
proof -
  from import_step_result[OF assms(1)] show ?thesis
  proof
    assume "st' = st"
    with assms(3) show ?thesis by simp
  next
    assume "\<exists>r. resolve_target wfile t (rel_path ` set wfs) = Inr (Some r) \<and>
       (file_hashes st' = file_hashes st \<or>
        file_hashes st' = (file_hashes st)(r \<mapsto> get_path_hashes ev r)) \<and>
       keywords_rows st' = keywords_rows st \<and>
       (relations st' = relations st \<or>
        relations st' = relations st @
          [\<lparr>src_merge_hash = merge_hash hashes, src_hash = hash hashes,
            dst_merge_hash = merge_hash (hashes_for ev st r),
            dst_hash = hash (hashes_for ev st r)\<rparr>])"
    then obtain r where r: "resolve_target wfile t (rel_path ` set wfs) = Inr (Some r)"
      and fh: "file_hashes st' = file_hashes st \<or>
               file_hashes st' = (file_hashes st)(r \<mapsto> get_path_hashes ev r)"
      and kw: "keywords_rows st' = keywords_rows st"
      and rl: "relations st' = relations st \<or>
        relations st' = relations st @
          [\<lparr>src_merge_hash = merge_hash hashes, src_hash = hash hashes,
            dst_merge_hash = merge_hash (hashes_for ev st r),
            dst_hash = hash (hashes_for ev st r)\<rparr>]"
      by blast
    from assms(3) have inv: "\<And>p h. file_hashes st p = Some h \<Longrightarrow> h = get_path_hashes ev p"
      and rows: "list_all (\<lambda>r. scanned_id ev wfs (row_merge_hash r)) (keywords_rows st)"
      and edges: "list_all (\<lambda>e. scanned_id ev wfs (src_merge_hash e) \<and>
                    scanned_id ev wfs (dst_merge_hash e)) (relations st)"
      by (simp_all add: from_scanned_def)
    from r have "r \<in> rel_path ` set wfs" by (rule resolve_target_mem)
    then have id: "scanned_id ev wfs (merge_hash (get_path_hashes ev r))"
      by (auto simp: scanned_id_def)
    have hf: "hashes_for ev st r = get_path_hashes ev r"
      using inv[of r] by (cases "file_hashes st r") (simp_all add: hashes_for_def)
    have a: "\<forall>p h. file_hashes st' p = Some h \<longrightarrow> h = get_path_hashes ev p"
      using fh inv by (auto split: if_splits)
    have b: "list_all (\<lambda>r. scanned_id ev wfs (row_merge_hash r)) (keywords_rows st')"
      using rows kw by simp
    have c: "list_all (\<lambda>e. scanned_id ev wfs (src_merge_hash e) \<and>
                    scanned_id ev wfs (dst_merge_hash e)) (relations st')"
      using rl edges id assms(2) hf by auto
    from a b c show ?thesis by (simp add: from_scanned_def)
  qed
qed

lemma import_loop_from_scanned:
  assumes "import_loop ev known (rel_path ` set wfs) wfile hashes st ts = Inr st'"
    and "scanned_id ev wfs (merge_hash hashes)"
    and "from_scanned ev wfs st"
  shows "from_scanned ev wfs st'"
  using assms
proof (induction ts arbitrary: st)
  case Nil
  then show ?case by simp
next
  case (Cons t ts)
  then obtain st1
    where s1: "import_step ev known (rel_path ` set wfs) wfile hashes st t = Inr st1"
      and l1: "import_loop ev known (rel_path ` set wfs) wfile hashes st1 ts = Inr st'"
    by (auto split: sum.splits)
  from import_step_from_scanned[OF s1 Cons.prems(2) Cons.prems(3)]
  show ?case by (rule Cons.IH[OF l1 Cons.prems(2)])
qed

lemma file_step_from_scanned:
  assumes "file_step ev known (rel_path ` set wfs) st wfile = Inr st'"
    and "wfile \<in> set wfs"
    and "from_scanned ev wfs st"
  shows "from_scanned ev wfs st'"
proof (cases "file_hashes st (rel_path wfile)")
  case None
  with assms(1) show ?thesis by (simp add: file_step_def)
next
  case (Some hashes)
  with assms(3) have h: "hashes = get_path_hashes ev (rel_path wfile)"
    by (simp add: from_scanned_def)
  with assms(2) have id: "scanned_id ev wfs (merge_hash hashes)"
    by (auto simp: scanned_id_def)
  show ?thesis
  proof (cases "in_known (merge_hash hashes) known")
    case False
    with Some assms show ?thesis by (simp add: file_step_def)
  next
    case True
    define st1 where "st1 = st\<lparr>keywords_rows := keywords_rows st @
        [\<lparr>row_merge_hash = merge_hash hashes, row_hash = hash hashes,
          row_keywords = extract_keywords (read_text ev) wfile\<rparr>]\<rparr>"
    from Some True assms(1) obtain ts
      where "import_loop ev known (rel_path ` set wfs) wfile hashes st1 ts = Inr st'"
      by (auto simp: file_step_def Let_def st1_def split: sum.splits)
    moreover have "from_scanned ev wfs st1"
      using assms(3) id by (simp add: st1_def from_scanned_def)
    ultimately show ?thesis using id by (blast intro: import_loop_from_scanned)
  qed
qed

lemma file_loop_from_scanned:
  assumes "file_loop ev known (rel_path ` set wfs) st ws = Inr st'"
    and "set ws \<subseteq> set wfs"
    and "from_scanned ev wfs st"
  shows "from_scanned ev wfs st'"
  using assms
proof (induction ws arbitrary: st)
  case Nil
  then show ?case by simp
next
  case (Cons w ws)
  then obtain st1 where s1: "file_step ev known (rel_path ` set wfs) st w = Inr st1"
    and l1: "file_loop ev known (rel_path ` set wfs) st1 ws = Inr st'"
    by (auto split: sum.splits)
  from Cons.prems(2) have w: "w \<in> set wfs" and ws: "set ws \<subseteq> set wfs" by auto
  from file_step_from_scanned[OF s1 w Cons.prems(3)]
  show ?case by (rule Cons.IH[OF l1 ws])
qed

lemma initial_file_hashes:
  "foldl (\<lambda>fh wfile. fh(rel_path wfile \<mapsto> get_path_hashes ev (rel_path wfile))) m wfs p = Some h \<Longrightarrow>
   (\<forall>q g. m q = Some g \<longrightarrow> g = get_path_hashes ev q) \<Longrightarrow> h = get_path_hashes ev p"
  by (induction wfs arbitrary: m) (auto split: if_splits)

lemma materialize_from_scanned:
  assumes "materialize ev known wfs = Inr st"
  shows "from_scanned ev wfs st"
proof -
  have "from_scanned ev wfs (initial_state ev wfs)"
    using initial_file_hashes[of ev Map.empty wfs]
    by (auto simp: from_scanned_def initial_state_def)
  with assms show ?thesis
    unfolding materialize_def by (blast intro: file_loop_from_scanned)
qed

lemma gitwildmatch_default_names: "default_names_match gitwildmatch_name"
proof -
  have m: "last (split_on c p) = n \<Longrightarrow> n \<in> set (split_on c p)" for c p and n :: string
    using last_in_set[OF split_on_nonempty[of c p]] by simp
  show ?thesis
    by (auto simp: default_names_match_def DEFAULT_IGNORES_def gitwildmatch_name_def Let_def
             dest: m)
qed

lemma demo_no_reinclude:
  "no_reinclude gitwildmatch_name (user_lines (Some demo_gitignore) None)"
  by (simp add: no_reinclude_def user_lines_def demo_gitignore_def gitwildmatch_name_def)

lemma demo_tree_valid: "valid_tree demo_tree"
  by (simp add: demo_tree_def valid_name_def)

lemma demo_scan_eq:
  "demo_scan = map demo_file [''a.ts'', ''b.ts'', ''c.ts'', ''u.ts'', ''src/m.php'']"
  by code_simp

section \<open>The claims about the run\<close>

text \<open>
  C1, as the code has it: the edges are deduplicated by the ordered pair of the
  source's and the target's \<open>merge_hash\<close>. No two edges of the materialized relation
  list have the same source and the same target, so a second import of one file from
  the same importer adds no edge. (An import in the opposite direction has another key
  and does add an edge, see \<open>C1_reverse_edge_kept\<close>.)
\<close>

theorem C1_dedup_ordered_pair:
  "materialize ev known working_files = Inr st \<Longrightarrow> distinct (map edge_key (relations st))"
  by (rule materialize_distinct_keys)

theorem C1_dedup_ordered_pair_witness:
  "\<exists>st. materialize demo_env (load_known_files demo_rows) demo_files = Inr st \<and>
        distinct (map edge_key (relations st))"
proof -
  from demo_materialize_returns obtain st
    where st: "materialize demo_env (load_known_files demo_rows) demo_files = Inr st"
    by (auto split: sum.splits)
  from C1_dedup_ordered_pair[OF st] st show ?thesis by blast
qed

text \<open>
  C1 as stated fails: in the small repository \<open>a.ts\<close> imports \<open>./b\<close> and \<open>b.ts\<close> imports
  \<open>./a\<close>; the edge from \<open>a.ts\<close> to \<open>b.ts\<close> is recorded first, and the later import in
  the opposite direction between the same two identities still produces a second edge.
\<close>

theorem C1_reverse_edge_kept:
  "result_keys (materialize demo_env (load_known_files demo_rows) demo_files) =
     Some [(''M:a.ts'', ''M:b.ts''), (''M:b.ts'', ''M:a.ts'')]"
  by code_simp

text \<open>
  C4: when a run returns, every edge handed to \<^verbatim>\<open>index_imports\<close> has a source and a
  target \<open>merge_hash\<close> among the known files loaded at the start, and every row handed to
  \<^verbatim>\<open>set_file_keywords\<close> has a known \<open>merge_hash\<close>. A specifier that resolves to a
  scanned path whose identity is not known is passed over: the step returns without an
  error and adds neither an edge nor a row.
\<close>

theorem C4_rows_reference_known:
  "(run ev rows working_files = Inr res \<longrightarrow>
      (\<forall>es \<in> set (index_imports_calls res). \<forall>e \<in> set es.
          in_known (src_merge_hash e) (load_known_files rows) \<and>
          in_known (dst_merge_hash e) (load_known_files rows)) \<and>
      (\<forall>ks \<in> set (set_file_keywords_calls res). \<forall>r \<in> set ks.
          in_known (row_merge_hash r) (load_known_files rows))) \<and>
   (resolve_target wfile target working_paths = Inr (Some resolved) \<and>
    \<not> in_known (merge_hash (hashes_for ev st resolved)) known \<longrightarrow>
      (\<exists>st'. import_step ev known working_paths wfile hashes st target = Inr st' \<and>
             relations st' = relations st \<and> keywords_rows st' = keywords_rows st))"
proof (intro conjI impI)
  assume r: "run ev rows working_files = Inr res"
  show "\<forall>es \<in> set (index_imports_calls res). \<forall>e \<in> set es.
          in_known (src_merge_hash e) (load_known_files rows) \<and>
          in_known (dst_merge_hash e) (load_known_files rows)"
  proof (cases "load_known_files rows = [] \<or> working_files = []")
    case True
    with r show ?thesis by (auto simp: run_def Let_def zero_result_def split: if_splits)
  next
    case False
    with r obtain st where m: "materialize ev (load_known_files rows) working_files = Inr st"
      and res: "index_imports_calls res = (if relations st \<noteq> [] then [relations st] else [])"
      by (auto simp: run_def Let_def split: sum.splits)
    from materialize_known[OF m] res show ?thesis
      by (auto simp: rows_known_def list_all_iff split: if_splits)
  qed
  show "\<forall>ks \<in> set (set_file_keywords_calls res). \<forall>r \<in> set ks.
          in_known (row_merge_hash r) (load_known_files rows)"
  proof (cases "load_known_files rows = [] \<or> working_files = []")
    case True
    with r show ?thesis by (auto simp: run_def Let_def zero_result_def split: if_splits)
  next
    case False
    with r obtain st where m: "materialize ev (load_known_files rows) working_files = Inr st"
      and res: "set_file_keywords_calls res =
                  (if keywords_rows st \<noteq> [] then [keywords_rows st] else [])"
      by (auto simp: run_def Let_def split: sum.splits)
    from materialize_known[OF m] res show ?thesis
      by (auto simp: rows_known_def list_all_iff split: if_splits)
  qed
next
  assume "resolve_target wfile target working_paths = Inr (Some resolved) \<and>
          \<not> in_known (merge_hash (hashes_for ev st resolved)) known"
  then show "\<exists>st'. import_step ev known working_paths wfile hashes st target = Inr st' \<and>
               relations st' = relations st \<and> keywords_rows st' = keywords_rows st"
    by (auto simp: import_step_def Let_def hashes_for_def split: option.splits)
qed

theorem C4_rows_reference_known_witness:
  "run demo_env demo_rows demo_files =
     Inr \<lparr>imports_count = 2, keyworded_files = 3,
          set_file_keywords_calls =
            [[\<lparr>row_merge_hash = ''M:a.ts'', row_hash = ''H:a.ts'', row_keywords = [''a'', ''ts'']\<rparr>,
              \<lparr>row_merge_hash = ''M:b.ts'', row_hash = ''H:b.ts'', row_keywords = [''b'', ''ts'']\<rparr>,
              \<lparr>row_merge_hash = ''M:c.ts'', row_hash = ''H:c.ts'', row_keywords = [''c'', ''ts'']\<rparr>]],
          index_imports_calls =
            [[\<lparr>src_merge_hash = ''M:a.ts'', src_hash = ''H:a.ts'',
               dst_merge_hash = ''M:b.ts'', dst_hash = ''H:b.ts''\<rparr>,
              \<lparr>src_merge_hash = ''M:b.ts'', src_hash = ''H:b.ts'',
               dst_merge_hash = ''M:a.ts'', dst_hash = ''H:a.ts''\<rparr>]]\<rparr> \<and>
   in_known ''M:a.ts'' (load_known_files demo_rows) \<and>
   in_known ''M:b.ts'' (load_known_files demo_rows) \<and>
   in_known ''M:c.ts'' (load_known_files demo_rows) \<and>
   resolve_target (demo_file ''c.ts'') ''./u'' (rel_path ` set demo_files) = Inr (Some ''u.ts'') \<and>
   \<not> in_known (merge_hash (hashes_for demo_env (initial_state demo_env demo_files) ''u.ts''))
       (load_known_files demo_rows) \<and>
   (\<exists>st'. import_step demo_env (load_known_files demo_rows) (rel_path ` set demo_files)
            (demo_file ''c.ts'') (get_path_hashes demo_env ''c.ts'')
            (initial_state demo_env demo_files) ''./u'' = Inr st' \<and>
          relations st' = relations (initial_state demo_env demo_files) \<and>
          keywords_rows st' = keywords_rows (initial_state demo_env demo_files))"
proof -
  have run_eq: "run demo_env demo_rows demo_files =
     Inr \<lparr>imports_count = 2, keyworded_files = 3,
          set_file_keywords_calls =
            [[\<lparr>row_merge_hash = ''M:a.ts'', row_hash = ''H:a.ts'', row_keywords = [''a'', ''ts'']\<rparr>,
              \<lparr>row_merge_hash = ''M:b.ts'', row_hash = ''H:b.ts'', row_keywords = [''b'', ''ts'']\<rparr>,
              \<lparr>row_merge_hash = ''M:c.ts'', row_hash = ''H:c.ts'', row_keywords = [''c'', ''ts'']\<rparr>]],
          index_imports_calls =
            [[\<lparr>src_merge_hash = ''M:a.ts'', src_hash = ''H:a.ts'',
               dst_merge_hash = ''M:b.ts'', dst_hash = ''H:b.ts''\<rparr>,
              \<lparr>src_merge_hash = ''M:b.ts'', src_hash = ''H:b.ts'',
               dst_merge_hash = ''M:a.ts'', dst_hash = ''H:a.ts''\<rparr>]]\<rparr>"
    by code_simp
  have res: "resolve_target (demo_file ''c.ts'') ''./u'' (rel_path ` set demo_files) =
               Inr (Some ''u.ts'')"
    by code_simp
  have unk: "\<not> in_known (merge_hash (hashes_for demo_env (initial_state demo_env demo_files) ''u.ts''))
       (load_known_files demo_rows)"
    by code_simp
  note inst = C4_rows_reference_known[where ev = demo_env and rows = demo_rows
      and working_files = demo_files and wfile = "demo_file ''c.ts''" and target = "''./u''"
      and working_paths = "rel_path ` set demo_files" and resolved = "''u.ts''"
      and st = "initial_state demo_env demo_files" and known = "load_known_files demo_rows"
      and hashes = "get_path_hashes demo_env ''c.ts''"]
  from inst run_eq have known:
    "in_known ''M:a.ts'' (load_known_files demo_rows) \<and>
     in_known ''M:b.ts'' (load_known_files demo_rows) \<and>
     in_known ''M:c.ts'' (load_known_files demo_rows)"
    by fastforce
  from inst res unk have step:
    "\<exists>st'. import_step demo_env (load_known_files demo_rows) (rel_path ` set demo_files)
            (demo_file ''c.ts'') (get_path_hashes demo_env ''c.ts'')
            (initial_state demo_env demo_files) ''./u'' = Inr st' \<and>
          relations st' = relations (initial_state demo_env demo_files) \<and>
          keywords_rows st' = keywords_rows (initial_state demo_env demo_files)"
    by blast
  from run_eq known res unk step show ?thesis by blast
qed

text \<open>
  C5: if no known file is loaded, or the scan yields no working file, the run returns
  the two counts at zero, without an error and without a call of either batch
  operation.
\<close>

theorem C5_empty_precondition:
  "load_known_files rows = [] \<or> working_files = [] \<Longrightarrow>
     run ev rows working_files =
       Inr \<lparr>imports_count = 0, keyworded_files = 0,
            set_file_keywords_calls = [], index_imports_calls = []\<rparr>"
  by (auto simp: run_def Let_def zero_result_def)

theorem C5_empty_precondition_witness:
  "load_known_files [(None, Some ''H3''), (Some [], None)] = [] \<and>
   run demo_env [(None, Some ''H3''), (Some [], None)] demo_files =
     Inr \<lparr>imports_count = 0, keyworded_files = 0,
          set_file_keywords_calls = [], index_imports_calls = []\<rparr> \<and>
   run demo_env demo_rows [] =
     Inr \<lparr>imports_count = 0, keyworded_files = 0,
          set_file_keywords_calls = [], index_imports_calls = []\<rparr>"
proof -
  have h: "load_known_files [(None, Some ''H3''), (Some [], None)] = []"
    by (simp add: load_known_files_def)
  from h C5_empty_precondition[of "[(None, Some ''H3''), (Some [], None)]" demo_files demo_env]
    C5_empty_precondition[of demo_rows "[]" demo_env]
  show ?thesis by simp
qed

section \<open>The claim about the keyword extractor\<close>

text \<open>
  C6: the keyword list of a file has at most 20 entries, none of them a stopword or
  empty, no entry twice, every entry without an upper-case letter; it is the first 20
  of the kept tokens in the order of their first discovery, the tokens of the path
  before the identifiers of the text: truncated, not sorted again.
\<close>

theorem C6_keyword_list:
  "length (extract_keywords rd file) \<le> 20 \<and>
   distinct (extract_keywords rd file) \<and>
   list_all (\<lambda>k. k \<notin> set STOPWORDS \<and> k \<noteq> [] \<and> no_upper k) (extract_keywords rd file) \<and>
   extract_keywords rd file =
     take 20 (first_occurrences (filter keyword_ok
       (map lower (path_tokens file @ ident_tokens rd file))))"
proof -
  let ?all = "filter keyword_ok (map lower (path_tokens file @ ident_tokens rd file))"
  have eq: "extract_keywords rd file = take 20 (first_occurrences ?all)"
    by (simp add: extract_keywords_eq KEYWORD_LIMIT_def)
  have len: "length (extract_keywords rd file) \<le> 20"
    by (simp add: eq)
  have dist: "distinct (extract_keywords rd file)"
    unfolding eq by (rule distinct_take) (rule distinct_first_occurrences)
  have each: "k \<notin> set STOPWORDS \<and> k \<noteq> [] \<and> no_upper k"
    if "k \<in> set (extract_keywords rd file)" for k
  proof -
    from that have "k \<in> set (first_occurrences ?all)"
      unfolding eq by (rule in_set_takeD)
    then have "k \<in> set ?all"
      by (simp only: set_first_occurrences)
    then obtain t where "k = lower t" and "keyword_ok k"
      by auto
    then show ?thesis
      by (simp add: keyword_ok_def no_upper_lower)
  qed
  then have "list_all (\<lambda>k. k \<notin> set STOPWORDS \<and> k \<noteq> [] \<and> no_upper k) (extract_keywords rd file)"
    by (simp add: list_all_iff)
  with len dist eq show ?thesis by blast
qed

theorem C6_keyword_list_witness:
  "extract_keywords (\<lambda>p. Some demo_kw_text) demo_kw_file =
     [''pa'', ''pb'', ''pc'', ''pd'', ''pe'', ''pf'', ''pg'', ''ph'', ''pi'', ''pj'', ''pk'', ''pl'',
      ''pm'', ''pn'', ''po'', ''pp'', ''pq'', ''user'', ''ts'', ''extra''] \<and>
   length (extract_keywords (\<lambda>p. Some demo_kw_text) demo_kw_file) \<le> 20 \<and>
   distinct (extract_keywords (\<lambda>p. Some demo_kw_text) demo_kw_file)"
proof -
  have "extract_keywords (\<lambda>p. Some demo_kw_text) demo_kw_file =
     [''pa'', ''pb'', ''pc'', ''pd'', ''pe'', ''pf'', ''pg'', ''ph'', ''pi'', ''pj'', ''pk'', ''pl'',
      ''pm'', ''pn'', ''po'', ''pp'', ''pq'', ''user'', ''ts'', ''extra'']"
    by code_simp
  with C6_keyword_list[of "\<lambda>p. Some demo_kw_text" demo_kw_file] show ?thesis
    by blast
qed

section \<open>The claims the code breaks\<close>

text \<open>
  C2: the claim is that a specifier with a leading \<open>/\<close> is resolved from the repository
  root, not from the importer's directory. The code removes the leading \<open>/\<close> and then
  joins the rest to the importer's directory all the same: from \<open>src/a.ts\<close> the specifier
  \<open>/lib/x\<close> has the base path \<open>src/lib/x\<close>, the file \<open>lib/x.ts\<close> at the root is not found,
  and \<open>src/lib/x.ts\<close> is.
\<close>

theorem C2_root_marker_joined_to_importer_dir:
  "base_path demo_src_importer ''/lib/x'' = ''src/lib/x'' \<and>
   resolve_target demo_src_importer ''/lib/x'' {''src/a.ts'', ''lib/x.ts''} = Inr None \<and>
   resolve_target demo_src_importer ''/lib/x'' {''src/a.ts'', ''src/lib/x.ts''} =
     Inr (Some ''src/lib/x.ts'')"
  by code_simp

text \<open>
  C7: the claim is that import extraction never raises. A file that has a language and
  a parser but cannot be read makes \<^verbatim>\<open>read_bytes\<close> raise outside the \<^verbatim>\<open>try\<close> block, and
  the run ends with that error, while the keyword extractor reads the same file inside
  a \<^verbatim>\<open>try\<close> block and goes on.
\<close>

theorem C7_unreadable_file_raises:
  "extract_imports demo_env demo_unreadable = Inl OSError \<and>
   extract_keywords (read_text demo_env) demo_unreadable = [''gone'', ''ts''] \<and>
   run demo_env [(Some ''M:gone.ts'', None)] [demo_unreadable] = Inl OSError"
  by code_simp

text \<open>
  C8: the claim is that every specifier of a PHP file with a namespace separator has
  its two candidates tried and then falls through. A specifier whose converted form
  has no last component, such as a lone separator, makes \<^verbatim>\<open>with_suffix\<close> raise
  \<^verbatim>\<open>ValueError\<close> before any candidate is tried.
\<close>

theorem C8_empty_name_raises:
  "php_case demo_php_importer [backslash] \<and>
   resolve_target demo_php_importer [backslash] {''x.php''} = Inl ValueError \<and>
   resolve_target demo_php_importer (''.'' @ [backslash]) {''x.php''} = Inl ValueError"
  by code_simp

section \<open>The claims about the resolver\<close>

text \<open>
  C3, as the code has it: a base path whose last component carries any extension,
  supported or not, is the only candidate; otherwise the candidates are the base path
  with \<open>.ts\<close>, \<open>.tsx\<close>, \<open>.js\<close>, \<open>.jsx\<close>, \<open>.mjs\<close>, \<open>.cjs\<close>, \<open>.php\<close> appended, in this order,
  then \<open>index\<close> with the same extensions inside the base path. The general resolution
  returns the first candidate among the scanned paths, so \<open>foo.ts\<close> wins over \<open>foo.js\<close>.
\<close>

theorem C3_candidate_order:
  "candidate_paths b =
     (if suffix (Path_of [b]) \<noteq> [] then [as_posix (Path_of [b])]
      else [b @ ''.ts'', b @ ''.tsx'', b @ ''.js'', b @ ''.jsx'', b @ ''.mjs'', b @ ''.cjs'',
            b @ ''.php'',
            as_posix (Path_of [b, ''index.ts'']), as_posix (Path_of [b, ''index.tsx'']),
            as_posix (Path_of [b, ''index.js'']), as_posix (Path_of [b, ''index.jsx'']),
            as_posix (Path_of [b, ''index.mjs'']), as_posix (Path_of [b, ''index.cjs'']),
            as_posix (Path_of [b, ''index.php''])]) \<and>
   resolve_general importer cleaned known =
     List.find (\<lambda>c. c \<in> known) (candidate_paths (base_path importer cleaned)) \<and>
   (suffix (Path_of [base_path importer cleaned]) = [] \<and>
    base_path importer cleaned @ ''.ts'' \<in> known \<longrightarrow>
      resolve_general importer cleaned known = Some (base_path importer cleaned @ ''.ts''))"
proof (intro conjI impI)
  show "candidate_paths b =
     (if suffix (Path_of [b]) \<noteq> [] then [as_posix (Path_of [b])]
      else [b @ ''.ts'', b @ ''.tsx'', b @ ''.js'', b @ ''.jsx'', b @ ''.mjs'', b @ ''.cjs'',
            b @ ''.php'',
            as_posix (Path_of [b, ''index.ts'']), as_posix (Path_of [b, ''index.tsx'']),
            as_posix (Path_of [b, ''index.js'']), as_posix (Path_of [b, ''index.jsx'']),
            as_posix (Path_of [b, ''index.mjs'']), as_posix (Path_of [b, ''index.cjs'']),
            as_posix (Path_of [b, ''index.php''])])"
    by (rule candidate_paths_unfold)
  show "resolve_general importer cleaned known =
     List.find (\<lambda>c. c \<in> known) (candidate_paths (base_path importer cleaned))"
    by (simp add: resolve_general_def first_known_find)
next
  assume h: "suffix (Path_of [base_path importer cleaned]) = [] \<and>
             base_path importer cleaned @ ''.ts'' \<in> known"
  then have "candidate_paths (base_path importer cleaned) =
               (base_path importer cleaned @ ''.ts'') #
               tl (candidate_paths (base_path importer cleaned))"
    by (simp add: candidate_paths_unfold)
  then have "first_known (candidate_paths (base_path importer cleaned)) known =
               first_known ((base_path importer cleaned @ ''.ts'') #
                 tl (candidate_paths (base_path importer cleaned))) known"
    by simp
  with h show "resolve_general importer cleaned known =
                 Some (base_path importer cleaned @ ''.ts'')"
    by (simp add: resolve_general_def)
qed

theorem C3_candidate_order_witness:
  "suffix (Path_of [base_path demo_src_importer ''./foo'']) = [] \<and>
   base_path demo_src_importer ''./foo'' @ ''.ts'' \<in> {''src/a.ts'', ''src/foo.js'', ''src/foo.ts''} \<and>
   resolve_general demo_src_importer ''./foo'' {''src/a.ts'', ''src/foo.js'', ''src/foo.ts''} =
     Some ''src/foo.ts'' \<and>
   resolve_target demo_src_importer ''./foo'' {''src/a.ts'', ''src/foo.js'', ''src/foo.ts''} =
     Inr (Some ''src/foo.ts'')"
proof -
  have b: "base_path demo_src_importer ''./foo'' = ''src/foo''"
    by code_simp
  have s: "suffix (Path_of [base_path demo_src_importer ''./foo'']) = []"
    by code_simp
  have m: "base_path demo_src_importer ''./foo'' @ ''.ts'' \<in>
             {''src/a.ts'', ''src/foo.js'', ''src/foo.ts''}"
    unfolding b by simp
  have t: "resolve_target demo_src_importer ''./foo'' {''src/a.ts'', ''src/foo.js'', ''src/foo.ts''} =
     Inr (Some ''src/foo.ts'')"
    by code_simp
  from C3_candidate_order[of _ demo_src_importer "''./foo''"
      "{''src/a.ts'', ''src/foo.js'', ''src/foo.ts''}"] s m
  have "resolve_general demo_src_importer ''./foo'' {''src/a.ts'', ''src/foo.js'', ''src/foo.ts''} =
     Some (base_path demo_src_importer ''./foo'' @ ''.ts'')"
    by blast
  then have "resolve_general demo_src_importer ''./foo''
       {''src/a.ts'', ''src/foo.js'', ''src/foo.ts''} = Some ''src/foo.ts''"
    unfolding b by simp
  with s m t show ?thesis by blast
qed

text \<open>
  C3 as stated fails: the base path \<open>foo.service\<close> carries no recognized extension, so
  the claim has \<open>foo.service.ts\<close> tried first; the code tries \<open>foo.service\<close> alone, and
  the specifier stays unresolved although \<open>foo.service.ts\<close> is a scanned path.
\<close>

theorem C3_unrecognized_extension_only_candidate:
  "suffix (Path_of [''foo.service'']) = ''.service'' \<and>
   ''.service'' \<notin> set SUPPORTED_IMPORT_EXTS \<and>
   candidate_paths ''foo.service'' = [''foo.service''] \<and>
   resolve_target (demo_file ''a.ts'') ''./foo.service'' {''a.ts'', ''foo.service.ts''} = Inr None"
  by code_simp

text \<open>
  C10, as the code has it: the resolver does not normalize \<open>..\<close>. If the cleaned
  specifier has a \<open>..\<close> segment and no scanned path has a component that begins with
  \<open>..\<close>, the resolver returns unresolved, for every importer, PHP importers included.
\<close>

theorem C10_parent_segment_unresolved:
  assumes "has_dotdot (clean target)" and "\<forall>p \<in> known. \<not> dotdot_start p"
  shows "resolve_target importer target known = Inr None"
proof -
  have gen: "resolve_general importer (clean target) known = None"
    unfolding resolve_general_def
  proof (rule first_known_none, rule ballI)
    fix c assume "c \<in> set (candidate_paths (base_path importer (clean target)))"
    with assms(1) have "dotdot_start c"
      by (blast intro: candidate_paths_dotdot base_path_dotdot)
    with assms(2) show "c \<notin> known" by blast
  qed
  from php_candidates_dotdot[OF assms(1)] obtain cands
    where pc: "php_candidates (clean target) = Inr cands"
      and dc: "\<forall>c \<in> set cands. dotdot_start c"
    by blast
  from dc assms(2) have "first_known cands known = None"
    by (intro first_known_none) blast
  with pc gen show ?thesis
    by (simp add: resolve_target_def Let_def)
qed

theorem C10_parent_segment_unresolved_witness:
  "has_dotdot (clean ''../b'') \<and>
   \<not> dotdot_start ''src/a.ts'' \<and> \<not> dotdot_start ''b.ts'' \<and>
   resolve_target demo_src_importer ''../b'' {''src/a.ts'', ''b.ts''} = Inr None"
proof -
  have h1: "has_dotdot (clean ''../b'')"
    by code_simp
  have h2: "\<forall>p \<in> {''src/a.ts'', ''b.ts''}. \<not> dotdot_start p"
    by code_simp
  from h2 have h3: "\<not> dotdot_start ''src/a.ts''" and h4: "\<not> dotdot_start ''b.ts''"
    by simp_all
  from C10_parent_segment_unresolved[OF h1 h2, of demo_src_importer] h1 h3 h4
  show ?thesis by (intro conjI)
qed

text \<open>
  C10 as stated fails: the scanned paths \<open>a.ts\<close> and \<open>...ts\<close> are normalized, relative
  and without a \<open>..\<close> component, and the specifier \<open>..\<close> from \<open>a.ts\<close> resolves to
  \<open>...ts\<close>, the base path \<open>..\<close> with \<open>.ts\<close> appended.
\<close>

theorem C10_dotdot_resolves_to_dotted_name:
  "has_dotdot (clean ''..'') \<and>
   \<not> has_dotdot ''a.ts'' \<and> \<not> has_dotdot ''...ts'' \<and>
   as_posix (Path_of [''...ts'']) = ''...ts'' \<and> p_root (Path_of [''...ts'']) = [] \<and>
   suffix (Path_of [''...ts'']) = ''.ts'' \<and>
   resolve_target (demo_file ''a.ts'') ''..'' {''a.ts'', ''...ts''} = Inr (Some ''...ts'')"
  by code_simp

text \<open>
  C9, as the code has it: let the pattern compiler turn each default-excluded name into
  an including pattern that matches every path ending in that name, let no negating line
  of the repository's ignore file or of the extra ignore file match a path that ends in
  a default-excluded name, and let the names of the tree be file names. Then no file
  yielded by the tree scanner has a path component equal to a default-excluded name,
  whatever its extension, and when a run over the scanned files returns, every keyword
  row and both ends of every edge carry the identity of a scanned file.
\<close>

theorem C9_default_excluded_never_scanned:
  assumes "default_names_match compile"
    and "no_reinclude compile (user_lines gitignore ignore_file)"
    and "valid_tree tree"
    and "scanned =
           iter_working_files (build_ignore_spec compile gitignore ignore_file) repo_root tree"
  shows "(\<forall>w \<in> set scanned. \<forall>c \<in> set (split_on CHR ''/'' (rel_path w)).
            c \<notin> set DEFAULT_IGNORES) \<and>
         (run ev rows scanned = Inr res \<longrightarrow>
            (\<forall>ks \<in> set (set_file_keywords_calls res). \<forall>r \<in> set ks.
                scanned_id ev scanned (row_merge_hash r)) \<and>
            (\<forall>es \<in> set (index_imports_calls res). \<forall>e \<in> set es.
                scanned_id ev scanned (src_merge_hash e) \<and>
                scanned_id ev scanned (dst_merge_hash e)))"
proof (intro conjI impI ballI)
  fix w c
  assume w: "w \<in> set scanned" and c: "c \<in> set (split_on CHR ''/'' (rel_path w))"
  from w assms(4)
  have "w \<in> set (walk (build_ignore_spec compile gitignore ignore_file) repo_root
                  (join_on ''/'' []) tree)"
    by (simp add: iter_working_files_def)
  from walk_no_default(1)[OF assms(1,2) refl assms(3) refl _ _ this] c
  show "c \<notin> set DEFAULT_IGNORES" by simp
next
  fix ks r
  assume r: "run ev rows scanned = Inr res"
    and ks: "ks \<in> set (set_file_keywords_calls res)" and rr: "r \<in> set ks"
  show "scanned_id ev scanned (row_merge_hash r)"
  proof (cases "load_known_files rows = [] \<or> scanned = []")
    case True
    with r ks show ?thesis by (auto simp: run_def Let_def zero_result_def split: if_splits)
  next
    case False
    with r obtain st where m: "materialize ev (load_known_files rows) scanned = Inr st"
      and res: "set_file_keywords_calls res =
                  (if keywords_rows st \<noteq> [] then [keywords_rows st] else [])"
      by (auto simp: run_def Let_def split: sum.splits)
    from materialize_from_scanned[OF m] res ks rr show ?thesis
      by (auto simp: from_scanned_def list_all_iff split: if_splits)
  qed
next
  fix es e
  assume r: "run ev rows scanned = Inr res"
    and es: "es \<in> set (index_imports_calls res)" and ee: "e \<in> set es"
  have "scanned_id ev scanned (src_merge_hash e) \<and> scanned_id ev scanned (dst_merge_hash e)"
  proof (cases "load_known_files rows = [] \<or> scanned = []")
    case True
    with r es show ?thesis by (auto simp: run_def Let_def zero_result_def split: if_splits)
  next
    case False
    with r obtain st where m: "materialize ev (load_known_files rows) scanned = Inr st"
      and res: "index_imports_calls res = (if relations st \<noteq> [] then [relations st] else [])"
      by (auto simp: run_def Let_def split: sum.splits)
    from materialize_from_scanned[OF m] res es ee show ?thesis
      by (auto simp: from_scanned_def list_all_iff split: if_splits)
  qed
  then show "scanned_id ev scanned (src_merge_hash e)"
    and "scanned_id ev scanned (dst_merge_hash e)" by simp_all
qed

theorem C9_default_excluded_never_scanned_witness:
  "default_names_match gitwildmatch_name \<and>
   no_reinclude gitwildmatch_name (user_lines (Some demo_gitignore) None) \<and>
   valid_tree demo_tree \<and>
   demo_scan = map demo_file [''a.ts'', ''b.ts'', ''c.ts'', ''u.ts'', ''src/m.php''] \<and>
   list_all (\<lambda>w. list_all (\<lambda>c. c \<notin> set DEFAULT_IGNORES) (split_on CHR ''/'' (rel_path w)))
     demo_scan \<and>
   run demo_env demo_rows demo_scan =
     Inr \<lparr>imports_count = 2, keyworded_files = 3,
          set_file_keywords_calls =
            [[\<lparr>row_merge_hash = ''M:a.ts'', row_hash = ''H:a.ts'', row_keywords = [''a'', ''ts'']\<rparr>,
              \<lparr>row_merge_hash = ''M:b.ts'', row_hash = ''H:b.ts'', row_keywords = [''b'', ''ts'']\<rparr>,
              \<lparr>row_merge_hash = ''M:c.ts'', row_hash = ''H:c.ts'', row_keywords = [''c'', ''ts'']\<rparr>]],
          index_imports_calls =
            [[\<lparr>src_merge_hash = ''M:a.ts'', src_hash = ''H:a.ts'',
               dst_merge_hash = ''M:b.ts'', dst_hash = ''H:b.ts''\<rparr>,
              \<lparr>src_merge_hash = ''M:b.ts'', src_hash = ''H:b.ts'',
               dst_merge_hash = ''M:a.ts'', dst_hash = ''H:a.ts''\<rparr>]]\<rparr> \<and>
   scanned_id demo_env demo_scan ''M:a.ts'' \<and>
   scanned_id demo_env demo_scan ''M:b.ts'' \<and>
   scanned_id demo_env demo_scan ''M:c.ts''"
proof -
  have run_eq: "run demo_env demo_rows demo_scan =
     Inr \<lparr>imports_count = 2, keyworded_files = 3,
          set_file_keywords_calls =
            [[\<lparr>row_merge_hash = ''M:a.ts'', row_hash = ''H:a.ts'', row_keywords = [''a'', ''ts'']\<rparr>,
              \<lparr>row_merge_hash = ''M:b.ts'', row_hash = ''H:b.ts'', row_keywords = [''b'', ''ts'']\<rparr>,
              \<lparr>row_merge_hash = ''M:c.ts'', row_hash = ''H:c.ts'', row_keywords = [''c'', ''ts'']\<rparr>]],
          index_imports_calls =
            [[\<lparr>src_merge_hash = ''M:a.ts'', src_hash = ''H:a.ts'',
               dst_merge_hash = ''M:b.ts'', dst_hash = ''H:b.ts''\<rparr>,
              \<lparr>src_merge_hash = ''M:b.ts'', src_hash = ''H:b.ts'',
               dst_merge_hash = ''M:a.ts'', dst_hash = ''H:a.ts''\<rparr>]]\<rparr>"
    by code_simp
  note inst = C9_default_excluded_never_scanned[OF gitwildmatch_default_names
      demo_no_reinclude demo_tree_valid demo_scan_def,
      where ev = demo_env and rows = demo_rows]
  from inst[THEN conjunct1]
  have a: "list_all (\<lambda>w. list_all (\<lambda>c. c \<notin> set DEFAULT_IGNORES)
             (split_on CHR ''/'' (rel_path w))) demo_scan"
    by (simp add: list_all_iff)
  from inst[THEN conjunct2, THEN mp, OF run_eq]
  have b: "scanned_id demo_env demo_scan ''M:a.ts''"
    and c: "scanned_id demo_env demo_scan ''M:b.ts''"
    and d: "scanned_id demo_env demo_scan ''M:c.ts''"
    by simp_all
  from gitwildmatch_default_names demo_no_reinclude demo_tree_valid demo_scan_eq a run_eq b c d
  show ?thesis by (intro conjI)
qed

text \<open>
  C9 as stated fails: \<open>build\<close> is a default-excluded name, and with the line \<open>!build\<close> in
  the repository's ignore file the scanner descends into the directory \<open>build\<close> and
  yields \<open>build/x.ts\<close>; without that line it yields nothing.
\<close>

theorem C9_negation_reincludes_default:
  "''build'' \<in> set DEFAULT_IGNORES \<and>
   iter_working_files (build_ignore_spec gitwildmatch_name (Some [''!build'']) None) ''/r''
     (Dir [(''build'', Dir [] [''x.ts''])] []) =
     [\<lparr>rel_path = ''build/x.ts'', abs_path = ''/r/build/x.ts'', ext = ''.ts''\<rparr>] \<and>
   iter_working_files (build_ignore_spec gitwildmatch_name None None) ''/r''
     (Dir [(''build'', Dir [] [''x.ts''])] []) = []"
  by code_simp

end
